theory Spec2Isabelle
  imports Main "HOL-Library.AList"
begin

section \<open>Text, errors and the regular-expression engine\<close>

text \<open>
  A Python \<open>str\<close> is a sequence of code points; it is modelled as a list of naturals
  (\<open>ord\<close> of each character). A \<open>bytes\<close> value is a list of naturals below 256.
  Literals of the source are written through \<open>u\<close>.
\<close>

type_synonym str = "nat list"

definition u :: "string \<Rightarrow> str" where
  "u s = map of_char s"

text \<open>
  Exceptions of the source are values. \<open>SystemExit\<close> stands for
  \<^verbatim>\<open>ReplacementMaster.print_error(...)\<close> followed by \<^verbatim>\<open>sys.exit(GENERIC_ERROR_EXIT_CODE)\<close>;
  its argument records which message was printed.
\<close>

datatype exit_message =
    InvalidValue str str
  | RootAlreadyDeclared str
  | SelfReferentialQueuePosition
  | UndefinedReplacement str
  | ReplacementNotInQueue str
  | MissingAttribute str

datatype error =
    UnicodeEncodeError
  | ValueError
  | TypeError
  | KeyError
  | UncommittedApplyException
  | CommittedMutateException
  | MissingAttributeException str
  | UnrecognisedLabelException
  | SystemExit exit_message

text \<open>Sequencing: the second step runs on the result of the first unless that raised.\<close>

definition and_then :: "error + 'a \<Rightarrow> ('a \<Rightarrow> error + 'b) \<Rightarrow> error + 'b" where
  "and_then r f = (case r of Inl e \<Rightarrow> Inl e | Inr x \<Rightarrow> f x)"

text \<open>\<open>[\s]\<close> under \<open>re.ASCII\<close>: space, tab, newline, carriage return, form feed, vertical tab.\<close>

definition is_space :: "nat \<Rightarrow> bool" where
  "is_space c \<longleftrightarrow> c = 32 \<or> c = 9 \<or> c = 10 \<or> c = 13 \<or> c = 12 \<or> c = 11"

definition starts_with :: "str \<Rightarrow> str \<Rightarrow> bool" where
  "starts_with string prefix \<longleftrightarrow> take (length prefix) string = prefix"

subsection \<open>The UTF-8 codec of \<open>str.encode()\<close> and \<open>bytes.decode()\<close>\<close>

definition is_surrogate :: "nat \<Rightarrow> bool" where
  "is_surrogate c \<longleftrightarrow> 0xD800 \<le> c \<and> c \<le> 0xDFFF"

text \<open>A Unicode scalar value: a code point that is not a surrogate.\<close>

definition is_scalar_value :: "nat \<Rightarrow> bool" where
  "is_scalar_value c \<longleftrightarrow> c < 0x110000 \<and> \<not> is_surrogate c"

definition encode_code_point :: "nat \<Rightarrow> nat list" where
  "encode_code_point c =
     (if c < 0x80 then [c]
      else if c < 0x800 then [0xC0 + c div 64, 0x80 + c mod 64]
      else if c < 0x10000 then
        [0xE0 + c div 4096, 0x80 + (c div 64) mod 64, 0x80 + c mod 64]
      else
        [0xF0 + c div 262144, 0x80 + (c div 4096) mod 64,
         0x80 + (c div 64) mod 64, 0x80 + c mod 64])"

text \<open>
  \<open>str.encode()\<close> (UTF-8, strict): a lone surrogate code point raises
  \<open>UnicodeEncodeError\<close>.
\<close>

fun str_encode :: "str \<Rightarrow> error + nat list" where
  "str_encode [] = Inr []"
| "str_encode (c # cs) =
     (if is_surrogate c then Inl UnicodeEncodeError
      else (case str_encode cs of
              Inl e \<Rightarrow> Inl e
            | Inr bs \<Rightarrow> Inr (encode_code_point c @ bs)))"

definition is_continuation :: "nat \<Rightarrow> bool" where
  "is_continuation b \<longleftrightarrow> 0x80 \<le> b \<and> b \<le> 0xBF"

text \<open>
  \<open>bytes.decode()\<close> (UTF-8, strict): \<open>None\<close> stands for \<open>UnicodeDecodeError\<close>.
  Overlong forms, encoded surrogates and values above U+10FFFF are rejected through the
  admissible range of the second byte.
\<close>

definition second_byte_ok :: "nat \<Rightarrow> nat \<Rightarrow> bool" where
  "second_byte_ok b0 b1 \<longleftrightarrow>
     (if b0 = 0xE0 then 0xA0 \<le> b1 \<and> b1 \<le> 0xBF
      else if b0 = 0xED then 0x80 \<le> b1 \<and> b1 \<le> 0x9F
      else if b0 = 0xF0 then 0x90 \<le> b1 \<and> b1 \<le> 0xBF
      else if b0 = 0xF4 then 0x80 \<le> b1 \<and> b1 \<le> 0x8F
      else is_continuation b1)"

fun bytes_decode :: "nat list \<Rightarrow> str option" where
  "bytes_decode [] = Some []"
| "bytes_decode (b0 # bs) =
     (if b0 < 0x80 then map_option ((#) b0) (bytes_decode bs)
      else if 0xC2 \<le> b0 \<and> b0 \<le> 0xDF then
        (case bs of
           b1 # bs1 \<Rightarrow>
             if is_continuation b1
             then map_option ((#) ((b0 - 0xC0) * 64 + (b1 - 0x80))) (bytes_decode bs1)
             else None
         | _ \<Rightarrow> None)
      else if 0xE0 \<le> b0 \<and> b0 \<le> 0xEF then
        (case bs of
           b1 # b2 # bs2 \<Rightarrow>
             if second_byte_ok b0 b1 \<and> is_continuation b2
             then map_option
                    ((#) ((b0 - 0xE0) * 4096 + (b1 - 0x80) * 64 + (b2 - 0x80)))
                    (bytes_decode bs2)
             else None
         | _ \<Rightarrow> None)
      else if 0xF0 \<le> b0 \<and> b0 \<le> 0xF4 then
        (case bs of
           b1 # b2 # b3 # bs3 \<Rightarrow>
             if second_byte_ok b0 b1 \<and> is_continuation b2 \<and> is_continuation b3
             then map_option
                    ((#) ((b0 - 0xF0) * 262144 + (b1 - 0x80) * 4096
                          + (b2 - 0x80) * 64 + (b3 - 0x80)))
                    (bytes_decode bs3)
             else None
         | _ \<Rightarrow> None)
      else None)"

subsection \<open>Scanning a text for the matches of a pattern\<close>

text \<open>
  A compiled pattern is modelled by a matcher: \<open>m must_advance behind ahead\<close> is the
  match that Python's backtracking engine finds when it tries the pattern at the position
  whose preceding text is \<open>rev behind\<close> and whose remaining text is \<open>ahead\<close>: the length
  of the matched text together with the captured groups, or \<open>None\<close> when the pattern does
  not match there. With \<open>must_advance\<close> set the engine accepts no empty match.

  \<open>re_scan\<close> is the search loop shared by \<open>re.sub\<close>, \<open>re.findall\<close> and \<open>re.finditer\<close>
  (Python 3.7 and later): matches are found from left to right and do not overlap; an
  empty match is reported also next to a preceding non-empty match; after an empty match
  the same position is tried once more for a non-empty match before the search moves on.
  The result lists the unmatched characters (\<open>Inl\<close>) and the matches (\<open>Inr\<close>) in text
  order.

  A match never reaches beyond the end of the text. \<open>try_match\<close> states this bound for an
  arbitrary matcher, and the termination of the loop rests on it; the matchers below
  satisfy it by construction.
\<close>

type_synonym 'g matcher = "bool \<Rightarrow> str \<Rightarrow> str \<Rightarrow> (nat \<times> 'g) option"

definition try_match :: "'g matcher \<Rightarrow> bool \<Rightarrow> str \<Rightarrow> str \<Rightarrow> (nat \<times> 'g) option" where
  "try_match m must_advance behind ahead =
     (case m must_advance behind ahead of
        None \<Rightarrow> None
      | Some (n, g) \<Rightarrow>
          if (n = 0 \<and> must_advance) \<or> length ahead < n then None else Some (n, g))"

function re_scan :: "'g matcher \<Rightarrow> bool \<Rightarrow> str \<Rightarrow> str \<Rightarrow> (nat + str \<times> 'g) list" where
  "re_scan m must_advance behind ahead =
     (case try_match m must_advance behind ahead of
        Some (n, g) \<Rightarrow>
          if n = 0 then Inr ([], g) # re_scan m True behind ahead
          else Inr (take n ahead, g)
                 # re_scan m False (rev (take n ahead) @ behind) (drop n ahead)
      | None \<Rightarrow>
          (case ahead of
             [] \<Rightarrow> []
           | c # cs \<Rightarrow> Inl c # re_scan m False (c # behind) cs))"
  by pat_completeness auto
termination
  by (relation "measures [\<lambda>(m, adv, behind, ahead). length ahead,
                           \<lambda>(m, adv, behind, ahead). if adv then 0 else 1]")
     (auto simp: try_match_def split: option.splits if_splits)

declare re_scan.simps [simp del]

text \<open>\<open>re.sub(pattern, function, string)\<close> with a substitute function that may raise.\<close>

fun substitute_events :: "(str \<times> 'g \<Rightarrow> error + str) \<Rightarrow> (nat + str \<times> 'g) list \<Rightarrow> error + str" where
  "substitute_events f [] = Inr []"
| "substitute_events f (Inl c # es) =
     (case substitute_events f es of Inl e \<Rightarrow> Inl e | Inr t \<Rightarrow> Inr (c # t))"
| "substitute_events f (Inr mt # es) =
     (case f mt of
        Inl e \<Rightarrow> Inl e
      | Inr s \<Rightarrow> (case substitute_events f es of Inl e \<Rightarrow> Inl e | Inr t \<Rightarrow> Inr (s @ t)))"

text \<open>
  The same with a substitute function that applies replacement rules: it reads and writes
  the state \<open>'w\<close> that rule application may touch (see the section on rules).
\<close>

fun substitute_events_with ::
  "(str \<times> 'g \<Rightarrow> 'w \<Rightarrow> error + str \<times> 'w) \<Rightarrow> (nat + str \<times> 'g) list \<Rightarrow> 'w \<Rightarrow> error + str \<times> 'w" where
  "substitute_events_with f [] w = Inr ([], w)"
| "substitute_events_with f (Inl c # es) w =
     (case substitute_events_with f es w of Inl e \<Rightarrow> Inl e | Inr (t, w') \<Rightarrow> Inr (c # t, w'))"
| "substitute_events_with f (Inr mt # es) w =
     (case f mt w of
        Inl e \<Rightarrow> Inl e
      | Inr (s, w') \<Rightarrow>
          (case substitute_events_with f es w' of
             Inl e \<Rightarrow> Inl e
           | Inr (t, w'') \<Rightarrow> Inr (s @ t, w'')))"

definition re_sub_with ::
  "'g matcher \<Rightarrow> (str \<times> 'g \<Rightarrow> 'w \<Rightarrow> error + str \<times> 'w) \<Rightarrow> str \<Rightarrow> 'w \<Rightarrow> error + str \<times> 'w" where
  "re_sub_with m f string w = substitute_events_with f (re_scan m False [] string) w"

text \<open>\<open>re.findall\<close> for a pattern without groups: the matched texts.\<close>

fun matched_texts :: "(nat + str \<times> 'g) list \<Rightarrow> str list" where
  "matched_texts [] = []"
| "matched_texts (Inl c # es) = matched_texts es"
| "matched_texts (Inr mt # es) = fst mt # matched_texts es"

definition re_findall :: "'g matcher \<Rightarrow> str \<Rightarrow> str list" where
  "re_findall m string = matched_texts (re_scan m False [] string)"

definition re_sub :: "'g matcher \<Rightarrow> (str \<times> 'g \<Rightarrow> error + str) \<Rightarrow> str \<Rightarrow> error + str" where
  "re_sub m f string = substitute_events f (re_scan m False [] string)"

section \<open>PlaceholderMaster\<close>

abbreviation RUN_CODE_POINT_MIN :: nat where "RUN_CODE_POINT_MIN \<equiv> 0xE000"
abbreviation RUN_CHARACTER_MAX :: nat where "RUN_CHARACTER_MAX \<equiv> 0xE100"
abbreviation MARKER :: nat where "MARKER \<equiv> 0xF8FF"
abbreviation REPLACEMENT_CHARACTER :: nat where "REPLACEMENT_CHARACTER \<equiv> 0xFFFD"

definition is_run_character :: "nat \<Rightarrow> bool" where
  "is_run_character c \<longleftrightarrow> RUN_CODE_POINT_MIN \<le> c \<and> c \<le> RUN_CHARACTER_MAX"

text \<open>
  \<^verbatim>\<open>_PLACEHOLDER_PATTERN_COMPILED\<close>:
  \<^verbatim>\<open>{MARKER} (?P<run_characters> [{_RUN_CHARACTER_MIN}-{_RUN_CHARACTER_MAX}]* ) {MARKER}\<close>.
  The marker lies outside the class of the run, so giving characters of the greedy run
  back never helps: the pattern matches exactly when the longest run is followed by the
  marker. The captured group is the run.
\<close>

definition placeholder_pattern :: "str matcher" where
  "placeholder_pattern must_advance behind ahead =
     (case ahead of
        [] \<Rightarrow> None
      | c # cs \<Rightarrow>
          if c = MARKER then
            (case dropWhile is_run_character cs of
               [] \<Rightarrow> None
             | d # ds \<Rightarrow>
                 if d = MARKER
                 then Some (length (takeWhile is_run_character cs) + 2,
                            takeWhile is_run_character cs)
                 else None)
          else None)"

text \<open>\<open>bytes(iterable)\<close> raises \<open>ValueError\<close> for an element outside \<open>range(0, 256)\<close>.\<close>

definition bytes_of :: "nat list \<Rightarrow> error + nat list" where
  "bytes_of ns = (if \<forall>n \<in> set ns. n < 256 then Inr ns else Inl ValueError)"

definition unprotect_substitute_function :: "str \<times> str \<Rightarrow> error + str" where
  "unprotect_substitute_function placeholder_match =
     (let run_characters = snd placeholder_match in
      case bytes_of (map (\<lambda>character. character - RUN_CODE_POINT_MIN) run_characters) of
        Inl e \<Rightarrow> Inl e
      | Inr string_bytes \<Rightarrow>
          (case bytes_decode string_bytes of
             Some string \<Rightarrow> Inr string
           | None \<Rightarrow> Inr [REPLACEMENT_CHARACTER]))"

definition unprotect :: "str \<Rightarrow> error + str" where
  "unprotect string = re_sub placeholder_pattern unprotect_substitute_function string"

definition protect :: "str \<Rightarrow> error + str" where
  "protect string0 =
     (case unprotect string0 of
        Inl e \<Rightarrow> Inl e
      | Inr string \<Rightarrow>
          (case str_encode string of
             Inl e \<Rightarrow> Inl e
           | Inr string_bytes \<Rightarrow>
               Inr ([MARKER] @ map (\<lambda>byte. byte + RUN_CODE_POINT_MIN) string_bytes @ [MARKER])))"

section \<open>Replacement rules\<close>

text \<open>
  A rule object of class \<open>Replacement\<close>. The variant's \<open>_apply\<close>, compiled from its
  configuration, is the field \<open>apply_method\<close>; the outcome of the variant's
  \<open>_validate_mandatory_attributes\<close> is the field \<open>validate_mandatory_attributes\<close> (the
  name of a missing attribute, if any). Rule application runs in a state \<open>'w\<close>: whatever
  a rule reads or writes besides the text (the reference table). A reference to another
  rule object (\<open>queue_reference_replacement\<close>) is kept as that rule's id: ids identify
  rule objects, since \<open>process_class_declaration_line\<close> rejects an id that is already
  declared. The field \<open>replacement_id\<close> is the source's \<open>id_\<close>. The verbose trace that \<open>apply\<close> can print is not modelled.
\<close>

datatype queue_position = ROOT | BEFORE | AFTER

record 'w replacement =
  is_committed :: bool
  replacement_id :: str
  queue_position_type :: "queue_position option"
  queue_reference_replacement :: "str option"
  positive_flag_name :: "str option"
  negative_flag_name :: "str option"
  validate_mandatory_attributes :: "str option"
  apply_method :: "str \<Rightarrow> 'w \<Rightarrow> error + str \<times> 'w"

definition Replacement_init ::
  "str \<Rightarrow> str option \<Rightarrow> (str \<Rightarrow> 'w \<Rightarrow> error + str \<times> 'w) \<Rightarrow> 'w replacement" where
  "Replacement_init new_id missing method =
     \<lparr> is_committed = False, replacement_id = new_id, queue_position_type = None,
       queue_reference_replacement = None, positive_flag_name = None,
       negative_flag_name = None, validate_mandatory_attributes = missing,
       apply_method = method \<rparr>"

definition set_queue_position_type ::
  "'w replacement \<Rightarrow> queue_position option \<Rightarrow> error + 'w replacement" where
  "set_queue_position_type replacement v =
     (if is_committed replacement then Inl CommittedMutateException
      else Inr (replacement\<lparr>queue_position_type := v\<rparr>))"

definition set_queue_reference_replacement ::
  "'w replacement \<Rightarrow> str option \<Rightarrow> error + 'w replacement" where
  "set_queue_reference_replacement replacement v =
     (if is_committed replacement then Inl CommittedMutateException
      else Inr (replacement\<lparr>queue_reference_replacement := v\<rparr>))"

definition set_positive_flag_name ::
  "'w replacement \<Rightarrow> str option \<Rightarrow> error + 'w replacement" where
  "set_positive_flag_name replacement v =
     (if is_committed replacement then Inl CommittedMutateException
      else Inr (replacement\<lparr>positive_flag_name := v\<rparr>))"

definition set_negative_flag_name ::
  "'w replacement \<Rightarrow> str option \<Rightarrow> error + 'w replacement" where
  "set_negative_flag_name replacement v =
     (if is_committed replacement then Inl CommittedMutateException
      else Inr (replacement\<lparr>negative_flag_name := v\<rparr>))"

definition Replacement_commit :: "'w replacement \<Rightarrow> error + 'w replacement" where
  "Replacement_commit replacement =
     (case validate_mandatory_attributes replacement of
        Some missing_attribute \<Rightarrow> Inl (MissingAttributeException missing_attribute)
      | None \<Rightarrow> Inr (replacement\<lparr>is_committed := True\<rparr>))"

text \<open>
  \<open>Replacement.apply(string, enabled_flag_names=None)\<close>; an omitted argument is \<open>None\<close>.
\<close>

definition Replacement_apply ::
  "'w replacement \<Rightarrow> str \<Rightarrow> str list option \<Rightarrow> 'w \<Rightarrow> error + str \<times> 'w" where
  "Replacement_apply replacement string enabled_flag_names w =
     (if \<not> is_committed replacement then Inl UncommittedApplyException
      else
        (case enabled_flag_names of
           Some flags \<Rightarrow>
             if (case positive_flag_name replacement of
                   Some positive \<Rightarrow> positive \<notin> set flags
                 | None \<Rightarrow> False)
             then Inr (string, w)
             else if (case negative_flag_name replacement of
                        Some negative \<Rightarrow> negative \<in> set flags
                      | None \<Rightarrow> False)
             then Inr (string, w)
             else apply_method replacement string w
         | None \<Rightarrow> apply_method replacement string w))"

text \<open>The loop \<^verbatim>\<open>for replacement in replacements: string = replacement.apply(string)\<close>.\<close>

fun apply_each :: "'w replacement list \<Rightarrow> str \<Rightarrow> 'w \<Rightarrow> error + str \<times> 'w" where
  "apply_each [] string w = Inr (string, w)"
| "apply_each (replacement # rest) string w =
     (case Replacement_apply replacement string None w of
        Inl e \<Rightarrow> Inl e
      | Inr (string', w') \<Rightarrow> apply_each rest string' w')"

subsection \<open>OrdinaryDictionaryReplacement\<close>

text \<open>
  \<open>_substitute_from_pattern\<close> is a \<open>dict\<close>: an association list in insertion order;
  assigning to a key that is present keeps its place.
\<close>

definition add_substitution :: "(str \<times> str) list \<Rightarrow> str \<Rightarrow> str \<Rightarrow> (str \<times> str) list" where
  "add_substitution substitute_from_pattern pattern substitute =
     AList.update pattern substitute substitute_from_pattern"

text \<open>
  \<open>build_simultaneous_regex_pattern\<close>: the escaped patterns joined by \<open>|\<close>. An
  alternation takes the first alternative, in the order of the dictionary, that matches
  at the position; when an empty match is not accepted there, the first non-empty one.
\<close>

definition simultaneous_regex_pattern :: "(str \<times> str) list \<Rightarrow> unit matcher" where
  "simultaneous_regex_pattern substitute_from_pattern must_advance behind ahead =
     (case find (\<lambda>pattern. starts_with ahead pattern \<and> \<not> (must_advance \<and> pattern = []))
                (map fst substitute_from_pattern) of
        None \<Rightarrow> None
      | Some pattern \<Rightarrow> Some (length pattern, ()))"

definition simultaneous_substitute_function ::
  "(str \<times> str) list \<Rightarrow> 'w replacement list \<Rightarrow> str \<times> unit \<Rightarrow> 'w \<Rightarrow> error + str \<times> 'w" where
  "simultaneous_substitute_function substitute_from_pattern concluding_replacements match w =
     (case map_of substitute_from_pattern (fst match) of
        None \<Rightarrow> Inl KeyError
      | Some substitute \<Rightarrow> apply_each concluding_replacements substitute w)"

definition simultaneous_apply ::
  "(str \<times> str) list \<Rightarrow> 'w replacement list \<Rightarrow> str \<Rightarrow> 'w \<Rightarrow> error + str \<times> 'w" where
  "simultaneous_apply substitute_from_pattern concluding_replacements string w =
     (if length substitute_from_pattern > 0
      then re_sub_with (simultaneous_regex_pattern substitute_from_pattern)
             (simultaneous_substitute_function substitute_from_pattern concluding_replacements)
             string w
      else Inr (string, w))"

text \<open>
  \<open>str.replace(old, new)\<close>: the occurrences of \<open>old\<close> from left to right, without
  overlap; an empty \<open>old\<close> occurs before every character and at the end.
\<close>

function str_replace :: "str \<Rightarrow> str \<Rightarrow> str \<Rightarrow> str" where
  "str_replace old new [] = (if old = [] then new else [])"
| "str_replace old new (c # cs) =
     (if old = [] then new @ c # str_replace old new cs
      else if starts_with (c # cs) old
      then new @ str_replace old new (drop (length old) (c # cs))
      else c # str_replace old new cs)"
  by pat_completeness auto
termination
  by (relation "measure (\<lambda>(old, new, string). length string)") auto

fun replace_each :: "(str \<times> str) list \<Rightarrow> str \<Rightarrow> str" where
  "replace_each [] string = string"
| "replace_each ((pattern, substitute) # rest) string =
     replace_each rest (str_replace pattern substitute string)"

definition sequential_apply ::
  "(str \<times> str) list \<Rightarrow> 'w replacement list \<Rightarrow> str \<Rightarrow> 'w \<Rightarrow> error + str \<times> 'w" where
  "sequential_apply substitute_from_pattern concluding_replacements string w =
     apply_each concluding_replacements (replace_each substitute_from_pattern string) w"

text \<open>\<open>OrdinaryDictionaryReplacement._apply\<close>.\<close>

definition OrdinaryDictionaryReplacement_apply ::
  "bool \<Rightarrow> (str \<times> str) list \<Rightarrow> 'w replacement list \<Rightarrow> str \<Rightarrow> 'w \<Rightarrow> error + str \<times> 'w" where
  "OrdinaryDictionaryReplacement_apply apply_substitutions_simultaneously
       substitute_from_pattern concluding_replacements string w =
     (if apply_substitutions_simultaneously
      then simultaneous_apply substitute_from_pattern concluding_replacements string w
      else sequential_apply substitute_from_pattern concluding_replacements string w)"

text \<open>
  The \<open>add_substitution\<close> calls for a rule's substitution declarations, in the order of
  the declarations.
\<close>

definition declare_substitutions :: "(str \<times> str) list \<Rightarrow> (str \<times> str) list" where
  "declare_substitutions declarations =
     fold (\<lambda>(pattern, substitute) substitute_from_pattern.
             add_substitution substitute_from_pattern pattern substitute) declarations []"

text \<open>No pattern is a prefix of another pattern.\<close>

definition prefix_free :: "str list \<Rightarrow> bool" where
  "prefix_free patterns \<longleftrightarrow>
     (\<forall>p \<in> set patterns. \<forall>q \<in> set patterns. starts_with q p \<longrightarrow> p = q)"

section \<open>ReplacementMaster\<close>

record 'w replacement_master =
  replacement_from_id :: "(str \<times> 'w replacement) list"
  root_replacement_id :: "str option"
  replacement_queue :: "'w replacement list"

definition ReplacementMaster_init :: "'w replacement_master" where
  "ReplacementMaster_init =
     \<lparr> replacement_from_id = [], root_replacement_id = None, replacement_queue = [] \<rparr>"

text \<open>
  \<open>compute_class_declaration_match\<close>: the full match of
  \<^verbatim>\<open>(?P<class_name> [A-Za-z]+ ) [:] [\s]+ [#] (?P<id_> [a-z0-9-.]+ )\<close>,
  giving the groups \<open>class_name\<close> and \<open>id_\<close>.
\<close>

definition is_ascii_letter :: "nat \<Rightarrow> bool" where
  "is_ascii_letter c \<longleftrightarrow> (65 \<le> c \<and> c \<le> 90) \<or> (97 \<le> c \<and> c \<le> 122)"

definition is_id_character :: "nat \<Rightarrow> bool" where
  "is_id_character c \<longleftrightarrow> (97 \<le> c \<and> c \<le> 122) \<or> (48 \<le> c \<and> c \<le> 57) \<or> c = 45 \<or> c = 46"

definition compute_class_declaration_match :: "str \<Rightarrow> (str \<times> str) option" where
  "compute_class_declaration_match line =
     (let class_name = takeWhile is_ascii_letter line;
          after_name = dropWhile is_ascii_letter line
      in case after_name of
           [] \<Rightarrow> None
         | colon # after_colon \<Rightarrow>
             (case dropWhile is_space after_colon of
                [] \<Rightarrow> None
              | hash # new_id \<Rightarrow>
                  if class_name \<noteq> [] \<and> colon = 58 \<and> takeWhile is_space after_colon \<noteq> []
                     \<and> hash = 35 \<and> new_id \<noteq> [] \<and> (\<forall>c \<in> set new_id. is_id_character c)
                  then Some (class_name, new_id)
                  else None))"

text \<open>
  \<open>compute_queue_position_match\<close>: the full match of
  \<^verbatim>\<open>[\s]* (?: (?P<none_keyword> NONE ) | (?P<root_keyword> ROOT )
        | (?P<queue_position_type> BEFORE | AFTER ) [ ] [#] (?P<queue_reference_id> [a-z-.]+ )
        | (?P<invalid_value> [\s\S]*? ) ) [\s]*\<close>.
  The last alternative matches anything, so the greedy leading \<open>[\s]*\<close> keeps all the
  leading whitespace and the match never fails; each alternative has to be followed by
  whitespace only, and the lazy \<open>invalid_value\<close> is the text without its trailing
  whitespace. The result names the alternative that took part, with its groups.
\<close>

datatype queue_position_match =
    NoneKeyword
  | RootKeyword
  | QueueReference queue_position str
  | InvalidValueGroup str

definition is_queue_reference_character :: "nat \<Rightarrow> bool" where
  "is_queue_reference_character c \<longleftrightarrow> (97 \<le> c \<and> c \<le> 122) \<or> c = 45 \<or> c = 46"

definition strip_trailing_space :: "str \<Rightarrow> str" where
  "strip_trailing_space string = rev (dropWhile is_space (rev string))"

definition queue_reference_id :: "str \<Rightarrow> str \<Rightarrow> str option" where
  "queue_reference_id keyword text =
     (let reference = drop (length keyword) text
      in if starts_with text keyword \<and> reference \<noteq> []
            \<and> (\<forall>c \<in> set reference. is_queue_reference_character c)
         then Some reference else None)"

definition compute_queue_position_match :: "str \<Rightarrow> queue_position_match" where
  "compute_queue_position_match attribute_value =
     (let text = strip_trailing_space (dropWhile is_space attribute_value)
      in if text = u ''NONE'' then NoneKeyword
         else if text = u ''ROOT'' then RootKeyword
         else
           (case queue_reference_id (u ''BEFORE #'') text of
              Some reference \<Rightarrow> QueueReference BEFORE reference
            | None \<Rightarrow>
                (case queue_reference_id (u ''AFTER #'') text of
                   Some reference \<Rightarrow> QueueReference AFTER reference
                 | None \<Rightarrow> InvalidValueGroup text)))"

text \<open>
  \<open>stage_queue_position\<close> sets the position on the rule being declared; it reads the
  master and leaves it unchanged.
\<close>

definition stage_queue_position ::
  "'w replacement_master \<Rightarrow> 'w replacement \<Rightarrow> str \<Rightarrow> error + 'w replacement" where
  "stage_queue_position master replacement attribute_value =
     (case compute_queue_position_match attribute_value of
        InvalidValueGroup invalid_value \<Rightarrow>
          Inl (SystemExit (InvalidValue invalid_value (u ''queue_position'')))
      | NoneKeyword \<Rightarrow> Inr replacement
      | RootKeyword \<Rightarrow>
          (case root_replacement_id master of
             Some root \<Rightarrow> Inl (SystemExit (RootAlreadyDeclared root))
           | None \<Rightarrow>
               (case set_queue_position_type replacement (Some ROOT) of
                  Inl e \<Rightarrow> Inl e
                | Inr staged \<Rightarrow> set_queue_reference_replacement staged None))
      | QueueReference position reference_id \<Rightarrow>
          if reference_id = replacement_id replacement
          then Inl (SystemExit SelfReferentialQueuePosition)
          else
            (case map_of (replacement_from_id master) reference_id of
               None \<Rightarrow> Inl (SystemExit (UndefinedReplacement reference_id))
             | Some queue_reference \<Rightarrow>
                 if replacement_id queue_reference \<notin> replacement_id ` set (replacement_queue master)
                 then Inl (SystemExit (ReplacementNotInQueue reference_id))
                 else
                   (case set_queue_position_type replacement (Some position) of
                      Inl e \<Rightarrow> Inl e
                    | Inr staged \<Rightarrow>
                        set_queue_reference_replacement staged (Some (replacement_id queue_reference)))))"

text \<open>\<open>list.index\<close> on the queue (\<open>ValueError\<close> when absent) and \<open>list.insert\<close>.\<close>

fun queue_index :: "'w replacement list \<Rightarrow> str \<Rightarrow> error + nat" where
  "queue_index [] reference = Inl ValueError"
| "queue_index (replacement # rest) reference =
     (if replacement_id replacement = reference then Inr 0
      else (case queue_index rest reference of Inl e \<Rightarrow> Inl e | Inr i \<Rightarrow> Inr (Suc i)))"

definition list_insert :: "nat \<Rightarrow> 'a \<Rightarrow> 'a list \<Rightarrow> 'a list" where
  "list_insert i x xs = take i xs @ x # drop i xs"

definition ReplacementMaster_commit ::
  "'w replacement_master \<Rightarrow> 'w replacement \<Rightarrow> error + 'w replacement_master" where
  "ReplacementMaster_commit master replacement0 =
     (case Replacement_commit replacement0 of
        Inl (MissingAttributeException missing_attribute) \<Rightarrow>
          Inl (SystemExit (MissingAttribute missing_attribute))
      | Inl e \<Rightarrow> Inl e
      | Inr replacement \<Rightarrow>
          (let master1 = master\<lparr>replacement_from_id :=
                 AList.update (replacement_id replacement) replacement (replacement_from_id master)\<rparr>
           in case queue_position_type replacement of
                None \<Rightarrow> Inr master1
              | Some ROOT \<Rightarrow>
                  Inr (master1\<lparr>root_replacement_id := Some (replacement_id replacement),
                               replacement_queue := replacement_queue master @ [replacement]\<rparr>)
              | Some position \<Rightarrow>
                  (case queue_reference_replacement replacement of
                     None \<Rightarrow> Inl ValueError
                   | Some reference \<Rightarrow>
                       (case queue_index (replacement_queue master) reference of
                          Inl e \<Rightarrow> Inl e
                        | Inr queue_reference_index \<Rightarrow>
                            Inr (master1\<lparr>replacement_queue :=
                                   list_insert
                                     (if position = BEFORE then queue_reference_index
                                      else queue_reference_index + 1)
                                     replacement (replacement_queue master)\<rparr>)))))"

text \<open>
  The calls \<open>legislate\<close> makes for a rule that is declared with a \<open>queue_position\<close>
  attribute: the attribute is staged when the next line closes it, and the rule is
  committed when the following blank line, class declaration or the end of the rules
  closes the rule.
\<close>

definition legislate_queue_position ::
  "'w replacement_master \<Rightarrow> 'w replacement \<Rightarrow> str \<Rightarrow> error + 'w replacement_master" where
  "legislate_queue_position master replacement attribute_value =
     (case stage_queue_position master replacement attribute_value of
        Inl e \<Rightarrow> Inl e
      | Inr staged \<Rightarrow> ReplacementMaster_commit master staged)"

definition ReplacementMaster_execute ::
  "'w replacement_master \<Rightarrow> str \<Rightarrow> 'w \<Rightarrow> error + str \<times> 'w" where
  "ReplacementMaster_execute master string w = apply_each (replacement_queue master) string w"

section \<open>Attribute specifications\<close>

text \<open>\<open>re.sub(pattern, replacement, string)\<close> with a replacement without escapes.\<close>

fun replace_events :: "str \<Rightarrow> (nat + str \<times> 'g) list \<Rightarrow> str" where
  "replace_events replacement [] = []"
| "replace_events replacement (Inl c # es) = c # replace_events replacement es"
| "replace_events replacement (Inr mt # es) = replacement @ replace_events replacement es"

definition re_sub_string :: "'g matcher \<Rightarrow> str \<Rightarrow> str \<Rightarrow> str" where
  "re_sub_string m replacement string = replace_events replacement (re_scan m False [] string)"

text \<open>\<open>re.finditer\<close>: the groups of every match.\<close>

fun matched_groups :: "(nat + str \<times> 'g) list \<Rightarrow> 'g list" where
  "matched_groups [] = []"
| "matched_groups (Inl c # es) = matched_groups es"
| "matched_groups (Inr mt # es) = snd mt # matched_groups es"

definition re_finditer :: "'g matcher \<Rightarrow> str \<Rightarrow> 'g list" where
  "re_finditer m string = matched_groups (re_scan m False [] string)"

subsection \<open>\<open>escape_attribute_value_html\<close>\<close>

definition is_ascii_digit :: "nat \<Rightarrow> bool" where
  "is_ascii_digit c \<longleftrightarrow> 48 \<le> c \<and> c \<le> 57"

definition is_hex_digit :: "nat \<Rightarrow> bool" where
  "is_hex_digit c \<longleftrightarrow> (48 \<le> c \<and> c \<le> 57) \<or> (97 \<le> c \<and> c \<le> 102) \<or> (65 \<le> c \<and> c \<le> 70)"

text \<open>
  A bounded greedy run followed by a semicolon, such as \<^verbatim>\<open>[a-zA-Z]{1,31} [;]\<close>: the
  semicolon is outside the class, so the run of class characters at the position must
  have a length within the bounds and be followed by the semicolon.
\<close>

definition run_then_semicolon :: "(nat \<Rightarrow> bool) \<Rightarrow> nat \<Rightarrow> str \<Rightarrow> bool" where
  "run_then_semicolon in_class bound text \<longleftrightarrow>
     (let run = length (takeWhile in_class text)
      in 1 \<le> run \<and> run \<le> bound \<and> starts_with (drop run text) [59])"

text \<open>
  The lookahead of the first pattern:
  \<^verbatim>\<open>(?: [a-zA-Z]{1,31} | [#] (?: [0-9]{1,7} | [xX] [0-9a-fA-F]{1,6} ) ) [;]\<close>.
\<close>

definition entity_follows :: "str \<Rightarrow> bool" where
  "entity_follows text \<longleftrightarrow>
     run_then_semicolon is_ascii_letter 31 text
     \<or> (case text of
           [] \<Rightarrow> False
         | c # number \<Rightarrow>
             c = 35
             \<and> (run_then_semicolon is_ascii_digit 7 number
                \<or> (case number of
                      [] \<Rightarrow> False
                    | x # hex \<Rightarrow> (x = 120 \<or> x = 88) \<and> run_then_semicolon is_hex_digit 6 hex)))"

definition ampersand_pattern :: "unit matcher" where
  "ampersand_pattern must_advance behind ahead =
     (case ahead of
        [] \<Rightarrow> None
      | c # rest \<Rightarrow> if c = 38 \<and> \<not> entity_follows rest then Some (1, ()) else None)"

definition character_pattern :: "nat \<Rightarrow> unit matcher" where
  "character_pattern character must_advance behind ahead =
     (case ahead of
        [] \<Rightarrow> None
      | c # rest \<Rightarrow> if c = character then Some (1, ()) else None)"

definition escape_attribute_value_html :: "str \<Rightarrow> str" where
  "escape_attribute_value_html value0 =
     (let value1 = re_sub_string ampersand_pattern (u ''&amp;'') value0;
          value2 = re_sub_string (character_pattern 60) (u ''&lt;'') value1;
          value3 = re_sub_string (character_pattern 62) (u ''&gt;'') value2
      in re_sub_string (character_pattern 34) (u ''&quot;'') value3)"

subsection \<open>\<open>compute_attribute_specification_matches\<close>\<close>

text \<open>
  A match of the pattern, by the alternative of the optional group that took part:
  \<open>name\<close> with one of its three value groups, \<open>id_\<close>, \<open>class_\<close>, \<open>rowspan\<close>,
  \<open>colspan\<close>, \<open>width\<close>, \<open>height\<close>, \<open>delete_name\<close>, \<open>boolean_name\<close>, or none.
\<close>

datatype attribute_specification_match =
    NameDoubleQuoted str str
  | NameSingleQuoted str str
  | NameBare str str
  | IdGroup str
  | ClassGroup str
  | RowspanGroup str
  | ColspanGroup str
  | WidthGroup str
  | HeightGroup str
  | DeleteNameGroup str
  | BooleanNameGroup str
  | NoGroup

text \<open>
  \<^verbatim>\<open>"(?P<double_quoted_value> [\s\S]*? )"\<close> and its single-quoted twin: the lazy value
  ends at the first closing quote; the alternative fails when there is none.
\<close>

definition quoted_value :: "nat \<Rightarrow> str \<Rightarrow> str option" where
  "quoted_value quote text =
     (case text of
        [] \<Rightarrow> None
      | c # rest \<Rightarrow>
          if c = quote \<and> quote \<in> set rest
          then Some (takeWhile (\<lambda>d. d \<noteq> quote) rest) else None)"

text \<open>
  The alternatives of the group, in order, at a text. The first,
  \<^verbatim>\<open>(?P<name> [^\s=]+ ) = (?: "..." | '...' | (?P<bare_value> [\S]* ) )\<close>, needs the run
  of \<open>[^\s=]\<close> to be followed by \<open>=\<close>; its bare value always matches. The others are
  \<^verbatim>\<open>[#] (?P<id_> [^\s"]+ )\<close>, \<^verbatim>\<open>[.] (?P<class_> [^\s"]+ )\<close>,
  \<^verbatim>\<open>[r] (?P<rowspan> [0-9]+ )\<close>, \<^verbatim>\<open>[c] (?P<colspan> [0-9]+ )\<close>,
  \<^verbatim>\<open>[w] (?P<width> [0-9]+ )\<close>, \<^verbatim>\<open>[h] (?P<height> [0-9]+ )\<close>,
  \<^verbatim>\<open>[-] (?P<delete_name> [\S]+ )\<close> and \<^verbatim>\<open>(?P<boolean_name> [\S]+ )\<close>.
  The result is the length of the text the alternative matches, and its groups.
\<close>

definition attribute_alternative :: "str \<Rightarrow> (nat \<times> attribute_specification_match) option" where
  "attribute_alternative text =
     (let name = takeWhile (\<lambda>c. \<not> is_space c \<and> c \<noteq> 61) text;
          after_name = drop (length name) text
      in if name \<noteq> [] \<and> starts_with after_name [61] then
           (let value_text = drop 1 after_name
            in case quoted_value 34 value_text of
                 Some v \<Rightarrow> Some (length name + 1 + (length v + 2), NameDoubleQuoted name v)
               | None \<Rightarrow>
                   (case quoted_value 39 value_text of
                      Some v \<Rightarrow> Some (length name + 1 + (length v + 2), NameSingleQuoted name v)
                    | None \<Rightarrow>
                        (let v = takeWhile (\<lambda>c. \<not> is_space c) value_text
                         in Some (length name + 1 + length v, NameBare name v))))
         else
           (case text of
              [] \<Rightarrow> None
            | c # rest \<Rightarrow>
                (let word = takeWhile (\<lambda>d. \<not> is_space d \<and> d \<noteq> 34) rest;
                     digits = takeWhile is_ascii_digit rest;
                     nonspace = takeWhile (\<lambda>d. \<not> is_space d) rest
                 in if c = 35 \<and> word \<noteq> [] then Some (1 + length word, IdGroup word)
                    else if c = 46 \<and> word \<noteq> [] then Some (1 + length word, ClassGroup word)
                    else if c = 114 \<and> digits \<noteq> [] then Some (1 + length digits, RowspanGroup digits)
                    else if c = 99 \<and> digits \<noteq> [] then Some (1 + length digits, ColspanGroup digits)
                    else if c = 119 \<and> digits \<noteq> [] then Some (1 + length digits, WidthGroup digits)
                    else if c = 104 \<and> digits \<noteq> [] then Some (1 + length digits, HeightGroup digits)
                    else if c = 45 \<and> nonspace \<noteq> []
                      then Some (1 + length nonspace, DeleteNameGroup nonspace)
                    else if \<not> is_space c
                      then Some (1 + length nonspace, BooleanNameGroup (c # nonspace))
                    else None)))"

text \<open>
  The whole pattern \<^verbatim>\<open>[\s]* (?: ... ) ? [\s]*\<close>: leading whitespace, the group if one
  of its alternatives matches, trailing whitespace. No alternative starts with whitespace,
  so the greedy leading \<open>[\s]*\<close> keeps all of it.
\<close>

definition attribute_specification_pattern :: "attribute_specification_match matcher" where
  "attribute_specification_pattern must_advance behind ahead =
     (let leading = takeWhile is_space ahead;
          text = dropWhile is_space ahead
      in case attribute_alternative text of
           Some (n, groups) \<Rightarrow>
             Some (length leading + n + length (takeWhile is_space (drop n text)), groups)
         | None \<Rightarrow> Some (length leading, NoGroup))"

definition compute_attribute_specification_matches :: "str \<Rightarrow> attribute_specification_match list" where
  "compute_attribute_specification_matches attribute_specifications =
     re_finditer attribute_specification_pattern attribute_specifications"

subsection \<open>\<open>extract_attribute_name_and_value\<close> and \<open>build_attributes_sequence\<close>\<close>

definition ATTRIBUTE_NAME_FROM_ABBREVIATION :: "(str \<times> str) list" where
  "ATTRIBUTE_NAME_FROM_ABBREVIATION =
     [(u ''#'', u ''id''), (u ''.'', u ''class''), (u ''l'', u ''lang''),
      (u ''r'', u ''rowspan''), (u ''c'', u ''colspan''), (u ''w'', u ''width''),
      (u ''h'', u ''height''), (u ''s'', u ''style'')]"

definition expand_abbreviation :: "str \<Rightarrow> str" where
  "expand_abbreviation name =
     (case map_of ATTRIBUTE_NAME_FROM_ABBREVIATION name of Some full \<Rightarrow> full | None \<Rightarrow> name)"

text \<open>
  The result of \<open>extract_attribute_name_and_value\<close>: the pair (name, value), where the
  value of a boolean attribute is \<open>None\<close>; the 1-tuple (name,) of an attribute to omit;
  or \<open>None\<close> for an invalid specification.
\<close>

datatype name_and_value = NameAndValue str "str option" | NameOnly str

fun extract_attribute_name_and_value :: "attribute_specification_match \<Rightarrow> name_and_value option" where
  "extract_attribute_name_and_value (NameDoubleQuoted name v) =
     Some (NameAndValue (expand_abbreviation name) (Some v))"
| "extract_attribute_name_and_value (NameSingleQuoted name v) =
     Some (NameAndValue (expand_abbreviation name) (Some v))"
| "extract_attribute_name_and_value (NameBare name v) =
     Some (NameAndValue (expand_abbreviation name) (Some v))"
| "extract_attribute_name_and_value (IdGroup v) = Some (NameAndValue (u ''id'') (Some v))"
| "extract_attribute_name_and_value (ClassGroup v) = Some (NameAndValue (u ''class'') (Some v))"
| "extract_attribute_name_and_value (RowspanGroup v) = Some (NameAndValue (u ''rowspan'') (Some v))"
| "extract_attribute_name_and_value (ColspanGroup v) = Some (NameAndValue (u ''colspan'') (Some v))"
| "extract_attribute_name_and_value (WidthGroup v) = Some (NameAndValue (u ''width'') (Some v))"
| "extract_attribute_name_and_value (HeightGroup v) = Some (NameAndValue (u ''height'') (Some v))"
| "extract_attribute_name_and_value (DeleteNameGroup name) = Some (NameOnly name)"
| "extract_attribute_name_and_value (BooleanNameGroup name) = Some (NameAndValue name None)"
| "extract_attribute_name_and_value NoGroup = None"

text \<open>
  One round of the loop of \<open>build_attributes_sequence\<close> on the dictionary
  \<open>attribute_value_from_name\<close>. The f-string \<^verbatim>\<open>f' {value}'\<close> prints a value
  \<open>None\<close> as \<open>None\<close>; \<open>+=\<close> on a stored \<open>None\<close> raises \<open>TypeError\<close>.
\<close>

definition format_value :: "str option \<Rightarrow> str" where
  "format_value value = (case value of None \<Rightarrow> u ''None'' | Some v \<Rightarrow> v)"

fun merge_attribute ::
  "(str \<times> str option) list \<Rightarrow> name_and_value option \<Rightarrow> error + (str \<times> str option) list" where
  "merge_attribute attribute_value_from_name None = Inr attribute_value_from_name"
| "merge_attribute attribute_value_from_name (Some (NameAndValue name value)) =
     (if name = u ''class'' then
        (case map_of attribute_value_from_name (u ''class'') of
           None \<Rightarrow> Inr (AList.update (u ''class'') value attribute_value_from_name)
         | Some None \<Rightarrow> Inl TypeError
         | Some (Some previous) \<Rightarrow>
             Inr (AList.update (u ''class'') (Some (previous @ u '' '' @ format_value value))
                    attribute_value_from_name))
      else Inr (AList.update name value attribute_value_from_name))"
| "merge_attribute attribute_value_from_name (Some (NameOnly name)) =
     Inr (AList.delete name attribute_value_from_name)"

fun merge_attributes ::
  "(str \<times> str option) list \<Rightarrow> name_and_value option list \<Rightarrow> error + (str \<times> str option) list" where
  "merge_attributes attribute_value_from_name [] = Inr attribute_value_from_name"
| "merge_attributes attribute_value_from_name (name_and_value # rest) =
     (case merge_attribute attribute_value_from_name name_and_value of
        Inl e \<Rightarrow> Inl e
      | Inr merged \<Rightarrow> merge_attributes merged rest)"

fun attribute_sequence :: "(str \<times> str option) list \<Rightarrow> error + str" where
  "attribute_sequence [] = Inr []"
| "attribute_sequence ((name, None) # rest) =
     (case attribute_sequence rest of
        Inl e \<Rightarrow> Inl e
      | Inr sequence \<Rightarrow> Inr (u '' '' @ name @ sequence))"
| "attribute_sequence ((name, Some value) # rest) =
     (case unprotect value of
        Inl e \<Rightarrow> Inl e
      | Inr unprotected \<Rightarrow>
          (case attribute_sequence rest of
             Inl e \<Rightarrow> Inl e
           | Inr sequence \<Rightarrow>
               Inr (u '' '' @ name @ u ''=\"'' @ escape_attribute_value_html unprotected
                      @ u ''\"'' @ sequence)))"

text \<open>\<open>' '.join(strings)\<close>.\<close>

fun join_with_space :: "str list \<Rightarrow> str" where
  "join_with_space [] = []"
| "join_with_space [s] = s"
| "join_with_space (s # t # rest) = s @ u '' '' @ join_with_space (t # rest)"

definition build_attributes_sequence :: "str \<Rightarrow> bool \<Rightarrow> error + str" where
  "build_attributes_sequence attribute_specifications use_protection =
     (case merge_attributes []
             (map extract_attribute_name_and_value
                (compute_attribute_specification_matches attribute_specifications)) of
        Inl e \<Rightarrow> Inl e
      | Inr attribute_value_from_name \<Rightarrow>
          (case attribute_sequence attribute_value_from_name of
             Inl e \<Rightarrow> Inl e
           | Inr sequence \<Rightarrow> if use_protection then protect sequence else Inr sequence))"

text \<open>
  Vocabulary for the merging of specifications: the attribute name that a specification
  is about, and the values that a list of specifications gives for \<open>class\<close>, in
  encounter order.
\<close>

fun specified_name :: "name_and_value option \<Rightarrow> str option" where
  "specified_name None = None"
| "specified_name (Some (NameAndValue name value)) = Some name"
| "specified_name (Some (NameOnly name)) = Some name"

fun class_values :: "name_and_value option list \<Rightarrow> str list" where
  "class_values [] = []"
| "class_values (Some (NameAndValue name (Some v)) # rest) =
     (if name = u ''class'' then v # class_values rest else class_values rest)"
| "class_values (x # rest) = class_values rest"

text \<open>The stored value of \<open>class\<close> after more class values are appended to a previous one
  (\<open>None\<close>: no entry; \<open>Some None\<close>: the entry of a boolean attribute).\<close>

fun appended :: "str option option \<Rightarrow> str list \<Rightarrow> str option option" where
  "appended previous [] = previous"
| "appended None (v # vs) = appended (Some (Some v)) vs"
| "appended (Some None) (v # vs) = Some None"
| "appended (Some (Some p)) (v # vs) = appended (Some (Some (p @ u '' '' @ v))) vs"

section \<open>References\<close>

text \<open>
  \<open>ReferenceMaster\<close>: the dictionary \<open>_reference_from_label\<close>. \<open>str.lower\<close>, which
  \<open>normalise_label\<close> calls, is a parameter \<open>lower\<close> of the functions that use it.
\<close>

record reference =
  reference_attribute_specifications :: "str option"
  reference_uri :: "str option"
  reference_title :: "str option"

type_synonym reference_master = "(str \<times> reference) list"

definition store_definition ::
  "(str \<Rightarrow> str) \<Rightarrow> reference_master \<Rightarrow> str \<Rightarrow> str option \<Rightarrow> str option \<Rightarrow> str option
     \<Rightarrow> reference_master" where
  "store_definition lower references label attribute_specifications uri title =
     AList.update (lower label)
       \<lparr> reference_attribute_specifications = attribute_specifications,
         reference_uri = uri, reference_title = title \<rparr> references"

definition load_definition ::
  "(str \<Rightarrow> str) \<Rightarrow> reference_master \<Rightarrow> str \<Rightarrow> error + str option \<times> str option \<times> str option" where
  "load_definition lower references label =
     (case map_of references (lower label) of
        None \<Rightarrow> Inl UnrecognisedLabelException
      | Some reference \<Rightarrow>
          Inr (reference_attribute_specifications reference, reference_uri reference,
               reference_title reference))"

definition none_to_empty_string :: "str option \<Rightarrow> str" where
  "none_to_empty_string string = (case string of Some s \<Rightarrow> s | None \<Rightarrow> [])"

text \<open>
  The groups of a match of a referenced link or image: the bracketed text (\<open>link_text\<close>
  of a link, \<open>alt_text\<close> of an image), the optional \<open>label\<close> and the optional
  \<open>attribute_specifications\<close>. The substitute functions receive the matched text
  (\<open>match.group()\<close>) with the groups.
\<close>

record referenced_groups =
  bracketed_text :: str
  label_group :: "str option"
  attribute_specifications_group :: "str option"

text \<open>\<^verbatim>\<open>if label is None or label == '': label = content\<close> (or \<open>alt\<close>).\<close>

definition effective_label :: "referenced_groups \<Rightarrow> str" where
  "effective_label groups =
     (case label_group groups of
        None \<Rightarrow> bracketed_text groups
      | Some label \<Rightarrow> if label = [] then bracketed_text groups else label)"

text \<open>\<^verbatim>\<open>f'name={protect(value)}'\<close> when the value is not \<open>None\<close>, else the empty string.\<close>

definition protected_specification :: "str \<Rightarrow> str option \<Rightarrow> error + str" where
  "protected_specification name value =
     (case value of
        None \<Rightarrow> Inr []
      | Some v \<Rightarrow> (case protect v of Inl e \<Rightarrow> Inl e | Inr protected \<Rightarrow> Inr (name @ protected)))"

definition combine_attribute_specifications :: "str \<Rightarrow> str option \<Rightarrow> referenced_groups \<Rightarrow> str" where
  "combine_attribute_specifications referenced attribute_specifications groups =
     (case attribute_specifications of
        Some specifications \<Rightarrow>
          join_with_space [referenced, specifications,
                           none_to_empty_string (attribute_specifications_group groups)]
      | None \<Rightarrow> referenced)"

text \<open>\<open>ReferencedLinkReplacement.build_substitute_function\<close>.\<close>

definition referenced_link_substitute_function ::
  "(str \<Rightarrow> str) \<Rightarrow> reference_master \<Rightarrow> str option \<Rightarrow> str \<times> referenced_groups \<Rightarrow> error + str" where
  "referenced_link_substitute_function lower references attribute_specifications match =
     (let content = bracketed_text (snd match);
          label = effective_label (snd match)
      in case load_definition lower references label of
           Inl UnrecognisedLabelException \<Rightarrow> Inr (fst match)
         | Inl e \<Rightarrow> Inl e
         | Inr (referenced_attribute_specifications, href, title) \<Rightarrow>
             and_then (protected_specification (u ''href='') href)
               (\<lambda>href_attribute_specification.
                  and_then (protected_specification (u ''title='') title)
                    (\<lambda>title_attribute_specification.
                       and_then
                         (build_attributes_sequence
                            (combine_attribute_specifications
                               (join_with_space
                                  [href_attribute_specification, title_attribute_specification,
                                   none_to_empty_string referenced_attribute_specifications])
                               attribute_specifications (snd match))
                            True)
                         (\<lambda>attributes_sequence.
                            Inr (u ''<a'' @ attributes_sequence @ u ''>'' @ content @ u ''</a>'')))))"

text \<open>
  \<open>ReferencedImageReplacement.build_substitute_function\<close>: the alt text is protected
  before the label is looked up.
\<close>

definition referenced_image_substitute_function ::
  "(str \<Rightarrow> str) \<Rightarrow> reference_master \<Rightarrow> str option \<Rightarrow> str \<times> referenced_groups \<Rightarrow> error + str" where
  "referenced_image_substitute_function lower references attribute_specifications match =
     (let alt = bracketed_text (snd match)
      in and_then (protect alt)
           (\<lambda>alt_protected.
              let alt_attribute_specification = u ''alt='' @ alt_protected;
                  label = effective_label (snd match)
              in case load_definition lower references label of
                   Inl UnrecognisedLabelException \<Rightarrow> Inr (fst match)
                 | Inl e \<Rightarrow> Inl e
                 | Inr (referenced_attribute_specifications, src, title) \<Rightarrow>
                     and_then (protected_specification (u ''src='') (Some (none_to_empty_string src)))
                       (\<lambda>src_attribute_specification.
                          and_then (protected_specification (u ''title='') title)
                            (\<lambda>title_attribute_specification.
                               and_then
                                 (build_attributes_sequence
                                    (combine_attribute_specifications
                                       (join_with_space
                                          [alt_attribute_specification, src_attribute_specification,
                                           title_attribute_specification,
                                           none_to_empty_string referenced_attribute_specifications])
                                       attribute_specifications (snd match))
                                    True)
                                 (\<lambda>attributes_sequence.
                                    Inr (u ''<img'' @ attributes_sequence @ u ''>''))))))"

text \<open>
  \<open>_apply\<close> of the two rules: \<open>re.sub\<close> with the compiled pattern, which is a parameter
  here, and the substitute function. The state of rule application is the reference
  table, which these rules read.
\<close>

definition ReferencedLinkReplacement_apply ::
  "(str \<Rightarrow> str) \<Rightarrow> referenced_groups matcher \<Rightarrow> str option \<Rightarrow> str \<Rightarrow> reference_master
     \<Rightarrow> error + str \<times> reference_master" where
  "ReferencedLinkReplacement_apply lower regex_pattern_compiled attribute_specifications string =
     re_sub_with regex_pattern_compiled
       (\<lambda>match references.
          and_then (referenced_link_substitute_function lower references
                      attribute_specifications match)
            (\<lambda>substitute. Inr (substitute, references)))
       string"

definition ReferencedImageReplacement_apply ::
  "(str \<Rightarrow> str) \<Rightarrow> referenced_groups matcher \<Rightarrow> str option \<Rightarrow> str \<Rightarrow> reference_master
     \<Rightarrow> error + str \<times> reference_master" where
  "ReferencedImageReplacement_apply lower regex_pattern_compiled attribute_specifications string =
     re_sub_with regex_pattern_compiled
       (\<lambda>match references.
          and_then (referenced_image_substitute_function lower references
                      attribute_specifications match)
            (\<lambda>substitute. Inr (substitute, references)))
       string"

section \<open>De-indentation\<close>

text \<open>
  The three patterns of \<open>de_indent\<close>, under \<open>re.MULTILINE\<close>: \<open>^\<close> matches at the
  start of the string and just after a newline, \<open>$\<close> at the end of the string and just
  before a newline, \<open>\Z\<close> at the end of the string only. \<open>[^\S\n]\<close> under \<open>re.ASCII\<close>
  is the whitespace other than the newline.
\<close>

definition at_line_start :: "str \<Rightarrow> bool" where
  "at_line_start behind \<longleftrightarrow> (case behind of [] \<Rightarrow> True | c # cs \<Rightarrow> c = 10)"

definition is_horizontal_space :: "nat \<Rightarrow> bool" where
  "is_horizontal_space c \<longleftrightarrow> is_space c \<and> c \<noteq> 10"

text \<open>\<^verbatim>\<open>^ [^\S\n]+ \Z\<close>: at the start of a line, whitespace up to the end of the string.\<close>

definition trailing_whitespace_pattern :: "unit matcher" where
  "trailing_whitespace_pattern must_advance behind ahead =
     (if at_line_start behind \<and> ahead \<noteq> [] \<and> list_all is_horizontal_space ahead
      then Some (length ahead, ()) else None)"

text \<open>
  \<^verbatim>\<open>^ [^\S\n]+ | ^ (?! $ )\<close>: at the start of a line, its leading whitespace if it has
  some; otherwise the empty match, unless the line is empty.
\<close>

definition indentation_pattern :: "unit matcher" where
  "indentation_pattern must_advance behind ahead =
     (if at_line_start behind then
        (let run = takeWhile is_horizontal_space ahead
         in if run \<noteq> [] then Some (length run, ())
            else (case ahead of
                    [] \<Rightarrow> None
                  | c # cs \<Rightarrow> if c = 10 then None else Some (0, ())))
      else None)"

text \<open>
  \<^verbatim>\<open>f'^ {re.escape(longest_common_indentation)}'\<close>: at the start of a line, the literal
  indentation (\<open>re.escape\<close> protects its whitespace from \<open>re.VERBOSE\<close>).
\<close>

definition line_prefix_pattern :: "str \<Rightarrow> unit matcher" where
  "line_prefix_pattern indentation must_advance behind ahead =
     (if at_line_start behind \<and> starts_with ahead indentation
      then Some (length indentation, ()) else None)"

text \<open>\<open>min(strings, key=len, default='')\<close>: the first of the shortest strings.\<close>

fun shortest_string :: "str list \<Rightarrow> str" where
  "shortest_string [] = []"
| "shortest_string [s] = s"
| "shortest_string (s # t # rest) =
     (let best = shortest_string (t # rest) in if length best < length s then best else s)"

text \<open>
  The loop of \<open>compute_longest_common_prefix\<close>, with \<open>prefix = shortest_string[:n]\<close>:
  it stops at the first \<open>n\<close>, counting down, for which every string starts with the
  prefix, or at \<open>n = 0\<close>.
\<close>

fun shrink_prefix :: "str list \<Rightarrow> str \<Rightarrow> nat \<Rightarrow> str" where
  "shrink_prefix strings shortest 0 = []"
| "shrink_prefix strings shortest (Suc n) =
     (if list_all (\<lambda>string. starts_with string (take (Suc n) shortest)) strings
      then take (Suc n) shortest
      else shrink_prefix strings shortest n)"

definition compute_longest_common_prefix :: "str list \<Rightarrow> str" where
  "compute_longest_common_prefix strings =
     (let shortest = shortest_string strings
      in shrink_prefix strings shortest (length shortest))"

definition de_indent :: "str \<Rightarrow> str" where
  "de_indent string0 =
     (let string = re_sub_string trailing_whitespace_pattern [] string0;
          indentations = re_findall indentation_pattern string;
          longest_common_indentation = compute_longest_common_prefix indentations
      in re_sub_string (line_prefix_pattern longest_common_indentation) [] string)"

text \<open>\<open>DeIndentationReplacement._apply\<close>.\<close>

definition DeIndentationReplacement_apply :: "str \<Rightarrow> 'w \<Rightarrow> error + str \<times> 'w" where
  "DeIndentationReplacement_apply string w = Inr (de_indent string, w)"

subsection \<open>De-indentation as the specification words it\<close>

text \<open>
  The text is a sequence of lines separated by newlines. If the last line is not empty
  and consists of whitespace only, it is erased (it becomes empty). The longest common
  prefix of the leading whitespace of the non-empty lines is then computed, and it is
  stripped from every line that starts with it.
\<close>

fun split_lines :: "str \<Rightarrow> str list" where
  "split_lines [] = [[]]"
| "split_lines (c # cs) =
     (if c = 10 then [] # split_lines cs
      else (case split_lines cs of
              [] \<Rightarrow> [[c]]
            | line # lines \<Rightarrow> (c # line) # lines))"

fun join_lines :: "str list \<Rightarrow> str" where
  "join_lines [] = []"
| "join_lines [line] = line"
| "join_lines (line # next_line # lines) = line @ 10 # join_lines (next_line # lines)"

definition is_whitespace_only :: "str \<Rightarrow> bool" where
  "is_whitespace_only line \<longleftrightarrow> line \<noteq> [] \<and> list_all is_horizontal_space line"

definition erase_trailing_whitespace_line :: "str list \<Rightarrow> str list" where
  "erase_trailing_whitespace_line lines =
     (if lines \<noteq> [] \<and> is_whitespace_only (last lines) then butlast lines @ [[]] else lines)"

definition leading_whitespace :: "str \<Rightarrow> str" where
  "leading_whitespace line = takeWhile is_horizontal_space line"

fun common_prefix :: "str \<Rightarrow> str \<Rightarrow> str" where
  "common_prefix [] ys = []"
| "common_prefix (x # xs) [] = []"
| "common_prefix (x # xs) (y # ys) = (if x = y then x # common_prefix xs ys else [])"

fun longest_common_prefix_of :: "str list \<Rightarrow> str" where
  "longest_common_prefix_of [] = []"
| "longest_common_prefix_of [s] = s"
| "longest_common_prefix_of (s # t # rest) = common_prefix s (longest_common_prefix_of (t # rest))"

definition strip_prefix :: "str \<Rightarrow> str \<Rightarrow> str" where
  "strip_prefix indentation line =
     (if starts_with line indentation then drop (length indentation) line else line)"

definition de_indent_spec :: "str \<Rightarrow> str" where
  "de_indent_spec string =
     (let lines = erase_trailing_whitespace_line (split_lines string);
          indentation =
            longest_common_prefix_of
              (map leading_whitespace (filter (\<lambda>line. line \<noteq> []) lines))
      in join_lines (map (strip_prefix indentation) lines))"

text \<open>A pattern that begins with \<open>^\<close> matches at the start of a line only.\<close>

definition anchored :: "'g matcher \<Rightarrow> bool" where
  "anchored m \<longleftrightarrow> (\<forall>adv behind ahead. \<not> at_line_start behind \<longrightarrow> m adv behind ahead = None)"

text \<open>The lines of a text: at least one, none with a newline inside.\<close>

definition lines_ok :: "str list \<Rightarrow> bool" where
  "lines_ok ls \<longleftrightarrow> ls \<noteq> [] \<and> (\<forall>l \<in> set ls. 10 \<notin> set l)"

section \<open>Placeholder properties\<close>

lemmas placeholder_eval =
  unprotect_def protect_def re_sub_def re_scan.simps try_match_def placeholder_pattern_def
  is_run_character_def unprotect_substitute_function_def bytes_of_def is_continuation_def
  second_byte_ok_def is_surrogate_def encode_code_point_def

subsection \<open>UTF-8 decoding inverts encoding\<close>

lemma div_4096: "(c::nat) div 4096 = c div 64 div 64"
  by (simp add: div_mult2_eq[symmetric])

lemma div_262144: "(c::nat) div 262144 = c div 64 div 64 div 64"
  by (simp add: div_mult2_eq[symmetric])

lemma split_code_point: "(c::nat) = (c div 4096) * 4096 + ((c div 64) mod 64) * 64 + c mod 64"
proof -
  have "c = (c div 64) * 64 + c mod 64" by simp
  moreover have "c div 64 = (c div 64 div 64) * 64 + (c div 64) mod 64" by simp
  ultimately show ?thesis unfolding div_4096 by linarith
qed

lemma split_code_point4: "(c::nat) = (c div 262144) * 262144 + ((c div 4096) mod 64) * 4096 + ((c div 64) mod 64) * 64 + c mod 64"
proof -
  have "c = (c div 64) * 64 + c mod 64" by simp
  moreover have "c div 64 = (c div 64 div 64) * 64 + (c div 64) mod 64" by simp
  moreover have "c div 64 div 64 = (c div 64 div 64 div 64) * 64 + (c div 64 div 64) mod 64" by simp
  ultimately show ?thesis unfolding div_4096 div_262144 by linarith
qed

lemma decode_encode_2:
  assumes "0x80 \<le> c" "c < 0x800"
  shows "bytes_decode (encode_code_point c @ bs) = map_option ((#) c) (bytes_decode bs)"
proof -
  define q t where "q = c div 64" and "t = c mod 64"
  have c: "c = q * 64 + t" unfolding q_def t_def by simp
  have b: "t < 64" "2 \<le> q" "q < 32" using assms by (auto simp: q_def t_def)
  have e: "encode_code_point c = [0xC0 + q, 0x80 + t]"
    using assms by (simp add: encode_code_point_def q_def t_def)
  show ?thesis unfolding e using b c by (simp add: is_continuation_def)
qed


lemma decode_encode_3:
  assumes "0x800 \<le> c" "c < 0x10000" "\<not> is_surrogate c"
  shows "bytes_decode (encode_code_point c @ bs) = map_option ((#) c) (bytes_decode bs)"
proof -
  define q r t where "q = c div 4096" and "r = (c div 64) mod 64" and "t = c mod 64"
  have c: "c = q * 4096 + r * 64 + t" unfolding q_def r_def t_def by (rule split_code_point)
  have b: "r < 64" "t < 64" by (simp_all add: r_def t_def)
  have q: "q < 16" using assms c by linarith
  have s: "c < 0xD800 \<or> 0xDFFF < c" using assms by (auto simp: is_surrogate_def)
  have e: "encode_code_point c = [0xE0 + q, 0x80 + r, 0x80 + t]"
    using assms by (simp add: encode_code_point_def q_def r_def t_def)
  have r0: "q = 0 \<Longrightarrow> 32 \<le> r" using assms c b by linarith
  have r13: "q = 13 \<Longrightarrow> r < 32" using assms c b s by linarith
  have ok: "second_byte_ok (0xE0 + q) (0x80 + r)"
    using b q r0 r13 by (auto simp: second_byte_ok_def is_continuation_def)
  have v: "q * 4096 + r * 64 + t = c" using c by simp
  show ?thesis unfolding e using b q ok v by (simp add: is_continuation_def)
qed

lemma decode_encode_4:
  assumes "0x10000 \<le> c" "c < 0x110000"
  shows "bytes_decode (encode_code_point c @ bs) = map_option ((#) c) (bytes_decode bs)"
proof -
  define p q r t where "p = c div 262144" and "q = (c div 4096) mod 64"
    and "r = (c div 64) mod 64" and "t = c mod 64"
  have c: "c = p * 262144 + q * 4096 + r * 64 + t"
    unfolding p_def q_def r_def t_def by (rule split_code_point4)
  have b: "q < 64" "r < 64" "t < 64" by (simp_all add: q_def r_def t_def)
  have p: "p < 5" using assms c by linarith
  have e: "encode_code_point c = [0xF0 + p, 0x80 + q, 0x80 + r, 0x80 + t]"
    using assms by (simp add: encode_code_point_def p_def q_def r_def t_def)
  have q0: "p = 0 \<Longrightarrow> 16 \<le> q" using assms c b by linarith
  have q4: "p = 4 \<Longrightarrow> q < 16" using assms c b by linarith
  have ok: "second_byte_ok (0xF0 + p) (0x80 + q)"
    using b p q0 q4 by (auto simp: second_byte_ok_def is_continuation_def)
  have v: "p * 262144 + q * 4096 + r * 64 + t = c" using c by simp
  show ?thesis unfolding e using b p ok v by (simp add: is_continuation_def)
qed

lemma decode_encode_code_point:
  assumes "is_scalar_value c"
  shows "bytes_decode (encode_code_point c @ bs) = map_option ((#) c) (bytes_decode bs)"
proof -
  consider "c < 0x80" | "0x80 \<le> c" "c < 0x800" | "0x800 \<le> c" "c < 0x10000" | "0x10000 \<le> c"
    by linarith
  then show ?thesis
  proof cases
    case 1 then show ?thesis by (simp add: encode_code_point_def)
  next
    case 2 then show ?thesis by (rule decode_encode_2)
  next
    case 3 then show ?thesis using assms by (simp add: decode_encode_3 is_scalar_value_def)
  next
    case 4 then show ?thesis using assms by (simp add: decode_encode_4 is_scalar_value_def)
  qed
qed


lemma str_encode_scalar:
  "\<forall>c \<in> set s. is_scalar_value c \<Longrightarrow>
     str_encode s = Inr (concat (map encode_code_point s))"
  by (induction s) (simp_all add: is_scalar_value_def)

lemma bytes_decode_encode:
  "\<forall>c \<in> set s. is_scalar_value c \<Longrightarrow>
     bytes_decode (concat (map encode_code_point s)) = Some s"
  by (induction s) (simp_all add: decode_encode_code_point)

lemma encode_code_point_byte:
  "c < 0x110000 \<Longrightarrow> b \<in> set (encode_code_point c) \<Longrightarrow> b < 256"
  by (auto simp: encode_code_point_def split: if_splits)

subsection \<open>Scanning for placeholders\<close>

lemma re_scan_Nil: "re_scan placeholder_pattern adv behind [] = []"
  by (subst re_scan.simps) (simp add: try_match_def placeholder_pattern_def)

lemma re_scan_no_marker:
  "MARKER \<notin> set s \<Longrightarrow> re_scan placeholder_pattern adv behind s = map Inl s"
proof (induction s arbitrary: adv behind)
  case Nil
  show ?case by (simp add: re_scan_Nil)
next
  case (Cons c cs)
  then have "try_match placeholder_pattern adv behind (c # cs) = None"
    by (simp add: try_match_def placeholder_pattern_def)
  then show ?case using Cons by (subst re_scan.simps) simp
qed

lemma substitute_events_literals: "substitute_events f (map Inl s) = Inr s"
  by (induction s) simp_all

lemma unprotect_no_marker: "MARKER \<notin> set s \<Longrightarrow> unprotect s = Inr s"
  by (simp add: unprotect_def re_sub_def re_scan_no_marker substitute_events_literals)

lemma re_scan_placeholder:
  assumes "\<forall>r \<in> set run. is_run_character r"
  shows "re_scan placeholder_pattern False [] (MARKER # run @ [MARKER])
           = [Inr (MARKER # run @ [MARKER], run)]"
proof -
  have m: "\<not> is_run_character MARKER" by (simp add: is_run_character_def)
  have t: "takeWhile is_run_character (run @ [MARKER]) = run"
    using assms m by (simp add: takeWhile_append2)
  have d: "dropWhile is_run_character (run @ [MARKER]) = [MARKER]"
    using assms m by (simp add: dropWhile_append2)
  have "try_match placeholder_pattern False [] (MARKER # run @ [MARKER])
          = Some (length run + 2, run)"
    by (simp add: try_match_def placeholder_pattern_def t d)
  then show ?thesis
    by (subst re_scan.simps) (simp add: re_scan_Nil)
qed

text \<open>
  C1 (placeholder round trip), as amended. For every string \<open>s\<close> of Unicode scalar
  values (code points up to U+10FFFF that are not surrogates) without the marker U+F8FF,
  \<open>protect s\<close> returns a placeholder and \<open>unprotect\<close> of that placeholder returns
  \<open>s\<close> exactly; astral and other non-ASCII code points are included.
\<close>

theorem placeholder_round_trip:
  assumes "\<forall>c \<in> set s. c \<noteq> MARKER \<and> is_scalar_value c"
  shows "(case protect s of Inl e \<Rightarrow> Inl e | Inr p \<Rightarrow> unprotect p) = Inr s"
proof -
  let ?bytes = "concat (map encode_code_point s)"
  let ?run = "map (\<lambda>byte. byte + RUN_CODE_POINT_MIN) ?bytes"
  have sc: "\<forall>c \<in> set s. is_scalar_value c" and nm: "MARKER \<notin> set s"
    using assms by auto
  have lt256: "\<forall>b \<in> set ?bytes. b < 256"
    using sc by (auto simp: is_scalar_value_def dest: encode_code_point_byte)
  have p: "protect s = Inr (MARKER # ?run @ [MARKER])"
    by (simp add: protect_def unprotect_no_marker[OF nm] str_encode_scalar[OF sc])
  have run: "\<forall>r \<in> set ?run. is_run_character r"
    using lt256 by (fastforce simp: is_run_character_def)
  have unshift: "map (\<lambda>character. character - RUN_CODE_POINT_MIN) ?run = ?bytes"
    by (simp add: comp_def)
  have "unprotect_substitute_function (MARKER # ?run @ [MARKER], ?run) = Inr s"
    unfolding unprotect_substitute_function_def
    using lt256 by (simp add: unshift bytes_of_def bytes_decode_encode[OF sc] del: map_map)
  then have "unprotect (MARKER # ?run @ [MARKER]) = Inr s"
    by (simp add: unprotect_def re_sub_def re_scan_placeholder[OF run])
  then show ?thesis by (simp add: p)
qed

text \<open>
  The round trip at the string U+10348, U+00A3, \<open>$\<close>, U+20AC: an astral code point, a
  two-byte and a three-byte one.
\<close>

theorem placeholder_round_trip_witness:
  "(case protect [0x10348, 0xA3, 0x24, 0x20AC] of Inl e \<Rightarrow> Inl e | Inr p \<Rightarrow> unprotect p)
     = Inr [0x10348, 0xA3, 0x24, 0x20AC]"
  by (rule placeholder_round_trip) (simp add: is_scalar_value_def is_surrogate_def)

text \<open>
  C1 as stated ranges over every marker-free string. A Python string may hold a lone
  surrogate; it has no marker, yet \<open>protect\<close> raises \<open>UnicodeEncodeError\<close> on it, since
  \<open>str.encode()\<close> is strict.
\<close>

theorem protect_lone_surrogate_raises:
  "MARKER \<notin> set [0xD800] \<and> protect [0xD800] = Inl UnicodeEncodeError"
  by (simp add: placeholder_eval)


text \<open>
  C3 (unprotect never aborts). The pattern accepts run characters up to U+E100, one past
  the band U+E000 to U+E0FF that the class documents. For the span
  U+F8FF U+E100 U+F8FF the substitute function computes the byte value 256, on which
  \<open>bytes(...)\<close> raises \<open>ValueError\<close>; the handler catches \<open>UnicodeDecodeError\<close> only,
  so \<open>unprotect\<close> aborts instead of substituting U+FFFD. At U+E0FF, the documented upper
  edge, the byte 255 is not valid UTF-8 and the span becomes U+FFFD as the claim says.
\<close>

theorem unprotect_upper_edge_raises:
  "unprotect [MARKER, 0xE100, MARKER] = Inl ValueError
   \<and> unprotect [MARKER, 0xE0FF, MARKER] = Inr [REPLACEMENT_CHARACTER]"
  by (simp add: placeholder_eval)

section \<open>Rule queue and rule application\<close>

subsection \<open>The grammar of \<open>queue_position\<close>\<close>

lemma strip_trailing_space_append:
  assumes "ys \<noteq> []" "\<not> is_space (last ys)"
  shows "strip_trailing_space (xs @ ys) = xs @ ys"
proof (cases ys rule: rev_cases)
  case Nil
  with assms show ?thesis by simp
next
  case (snoc bs l)
  with assms show ?thesis by (simp add: strip_trailing_space_def)
qed

lemma id_character_not_space: "is_id_character c \<Longrightarrow> \<not> is_space c"
  by (auto simp: is_id_character_def is_space_def)

lemma digit_not_reference_character:
  "48 \<le> c \<Longrightarrow> c \<le> 57 \<Longrightarrow> \<not> is_queue_reference_character c"
  by (simp add: is_queue_reference_character_def)

lemma compute_queue_position_match_digit:
  assumes "new_id \<noteq> []" "\<forall>c \<in> set new_id. is_id_character c"
    and "\<exists>c \<in> set new_id. 48 \<le> c \<and> c \<le> 57"
  shows "compute_queue_position_match (u '' BEFORE #'' @ new_id)
           = InvalidValueGroup (u ''BEFORE #'' @ new_id)"
    and "compute_queue_position_match (u '' AFTER #'' @ new_id)
           = InvalidValueGroup (u ''AFTER #'' @ new_id)"
proof -
  have l: "\<not> is_space (last new_id)"
    using assms(1,2) by (simp add: id_character_not_space)
  have nr: "\<not> (\<forall>c \<in> set new_id. is_queue_reference_character c)"
    using assms(3) digit_not_reference_character by blast
  have b: "strip_trailing_space (dropWhile is_space (u '' BEFORE #'' @ new_id)) = u ''BEFORE #'' @ new_id"
    using strip_trailing_space_append[OF assms(1) l, of "u ''BEFORE #''"]
    by (simp add: u_def is_space_def)
  have a: "strip_trailing_space (dropWhile is_space (u '' AFTER #'' @ new_id)) = u ''AFTER #'' @ new_id"
    using strip_trailing_space_append[OF assms(1) l, of "u ''AFTER #''"]
    by (simp add: u_def is_space_def)
  show "compute_queue_position_match (u '' BEFORE #'' @ new_id)
           = InvalidValueGroup (u ''BEFORE #'' @ new_id)"
    unfolding compute_queue_position_match_def b
    using nr by (simp add: queue_reference_id_def starts_with_def u_def)
  show "compute_queue_position_match (u '' AFTER #'' @ new_id)
           = InvalidValueGroup (u ''AFTER #'' @ new_id)"
    unfolding compute_queue_position_match_def a
    using nr by (simp add: queue_reference_id_def starts_with_def u_def)
qed


lemmas master_eval =
  legislate_queue_position_def stage_queue_position_def compute_queue_position_match_def
  strip_trailing_space_def queue_reference_id_def starts_with_def is_space_def
  is_queue_reference_character_def ReplacementMaster_commit_def Replacement_commit_def
  Replacement_init_def set_queue_position_type_def set_queue_reference_replacement_def
  ReplacementMaster_init_def list_insert_def u_def

lemma class_declaration_accepts:
  assumes "class_name \<noteq> []" "\<forall>c \<in> set class_name. is_ascii_letter c"
    and "new_id \<noteq> []" "\<forall>c \<in> set new_id. is_id_character c"
  shows "compute_class_declaration_match (class_name @ u '': #'' @ new_id)
           = Some (class_name, new_id)"
proof -
  have c: "\<not> is_ascii_letter 58" by (simp add: is_ascii_letter_def)
  have t: "takeWhile is_ascii_letter (class_name @ 58 # 32 # 35 # new_id) = class_name"
    using assms(2) c by (simp add: takeWhile_append2)
  have d: "dropWhile is_ascii_letter (class_name @ 58 # 32 # 35 # new_id) = 58 # 32 # 35 # new_id"
    using assms(2) c by (simp add: dropWhile_append2)
  show ?thesis
    using assms(1,3,4)
    by (simp add: compute_class_declaration_match_def u_def t d is_space_def)
qed

text \<open>
  C10 (a queue position cannot name a rule whose id has a digit). Let \<open>new_id\<close> be an id
  that the class-declaration grammar accepts (\<open>[a-z0-9-.]+\<close>, so that the rule can be
  declared, committed and queued) and that contains a decimal digit. Then the attribute
  values \<open>BEFORE #new_id\<close> and \<open>AFTER #new_id\<close> match the \<open>invalid_value\<close> alternative
  of the \<open>queue_position\<close> grammar, whose ids are \<open>[a-z-.]+\<close>: for every master,
  whatever it has committed and queued, staging reports an invalid value and compilation
  exits.
\<close>

theorem queue_position_rejects_digit_ids:
  assumes "class_name \<noteq> []" "\<forall>c \<in> set class_name. is_ascii_letter c"
    and "new_id \<noteq> []" "\<forall>c \<in> set new_id. is_id_character c"
    and "\<exists>c \<in> set new_id. 48 \<le> c \<and> c \<le> 57"
  shows "compute_class_declaration_match (class_name @ u '': #'' @ new_id)
           = Some (class_name, new_id)
       \<and> stage_queue_position master replacement (u '' BEFORE #'' @ new_id)
           = Inl (SystemExit (InvalidValue (u ''BEFORE #'' @ new_id) (u ''queue_position'')))
       \<and> stage_queue_position master replacement (u '' AFTER #'' @ new_id)
           = Inl (SystemExit (InvalidValue (u ''AFTER #'' @ new_id) (u ''queue_position'')))
       \<and> legislate_queue_position master replacement (u '' BEFORE #'' @ new_id)
           = Inl (SystemExit (InvalidValue (u ''BEFORE #'' @ new_id) (u ''queue_position'')))
       \<and> legislate_queue_position master replacement (u '' AFTER #'' @ new_id)
           = Inl (SystemExit (InvalidValue (u ''AFTER #'' @ new_id) (u ''queue_position'')))"
  using class_declaration_accepts[OF assms(1-4)]
    compute_queue_position_match_digit[OF assms(3-5)]
  by (simp add: stage_queue_position_def legislate_queue_position_def)

text \<open>
  The rule \<open>#h1\<close> is declared, committed and queued as the root; a later rule placed
  \<open>AFTER #h1\<close> is rejected.
\<close>

theorem queue_position_rejects_digit_ids_witness:
  "(case legislate_queue_position ReplacementMaster_init
           (Replacement_init (u ''h1'') None (\<lambda>string (w::unit). Inr (string, w))) (u '' ROOT'') of
      Inl e \<Rightarrow> False
    | Inr master \<Rightarrow>
        map replacement_id (replacement_queue master) = [u ''h1'']
        \<and> map fst (replacement_from_id master) = [u ''h1'']
        \<and> compute_class_declaration_match (u ''HeadingReplacement: #h1'')
            = Some (u ''HeadingReplacement'', u ''h1'')
        \<and> legislate_queue_position master
             (Replacement_init (u ''intro'') None (\<lambda>string w. Inr (string, w))) (u '' AFTER #h1'')
            = Inl (SystemExit (InvalidValue (u ''AFTER #h1'') (u ''queue_position''))))"
proof -
  have a: "u ''HeadingReplacement'' \<noteq> []" "\<forall>c \<in> set (u ''HeadingReplacement''). is_ascii_letter c"
    by (simp_all add: u_def is_ascii_letter_def)
  have b: "u ''h1'' \<noteq> []" "\<forall>c \<in> set (u ''h1''). is_id_character c"
    "\<exists>c \<in> set (u ''h1''). 48 \<le> c \<and> c \<le> 57"
    by (simp_all add: u_def is_id_character_def)
  show ?thesis
    using queue_position_rejects_digit_ids[OF a b]
    by (simp add: master_eval)
qed

subsection \<open>Queue order\<close>

lemma reference_character_not_space: "is_queue_reference_character c \<Longrightarrow> \<not> is_space c"
  by (auto simp: is_queue_reference_character_def is_space_def)

lemma compute_queue_position_match_reference:
  assumes "reference \<noteq> []" "\<forall>c \<in> set reference. is_queue_reference_character c"
  shows "compute_queue_position_match (u '' BEFORE #'' @ reference) = QueueReference BEFORE reference"
    and "compute_queue_position_match (u '' AFTER #'' @ reference) = QueueReference AFTER reference"
proof -
  have l: "\<not> is_space (last reference)"
    using assms by (simp add: reference_character_not_space)
  have b: "strip_trailing_space (dropWhile is_space (u '' BEFORE #'' @ reference)) = u ''BEFORE #'' @ reference"
    using strip_trailing_space_append[OF assms(1) l, of "u ''BEFORE #''"]
    by (simp add: u_def is_space_def)
  have a: "strip_trailing_space (dropWhile is_space (u '' AFTER #'' @ reference)) = u ''AFTER #'' @ reference"
    using strip_trailing_space_append[OF assms(1) l, of "u ''AFTER #''"]
    by (simp add: u_def is_space_def)
  show "compute_queue_position_match (u '' BEFORE #'' @ reference) = QueueReference BEFORE reference"
    unfolding compute_queue_position_match_def b
    using assms by (simp add: queue_reference_id_def starts_with_def u_def)
  show "compute_queue_position_match (u '' AFTER #'' @ reference) = QueueReference AFTER reference"
    unfolding compute_queue_position_match_def a
    using assms by (simp add: queue_reference_id_def starts_with_def u_def)
qed

lemma compute_queue_position_match_root:
  "compute_queue_position_match (u '' ROOT'') = RootKeyword"
  by (simp add: compute_queue_position_match_def strip_trailing_space_def u_def is_space_def)

text \<open>
  C2 (queue ordering). Three rules are declared in this order: \<open>r\<close> with
  \<open>queue_position: ROOT\<close>, \<open>s\<close> with \<open>AFTER #r\<close>, \<open>t\<close> with \<open>BEFORE #s\<close>; their
  ids are distinct, and \<open>r\<close> and \<open>s\<close> are ids that a queue position can name. Then
  compilation succeeds with the queue \<open>[r, t, s]\<close>, and \<open>execute\<close> applies the behaviour
  of \<open>r\<close>, then that of \<open>t\<close>, then that of \<open>s\<close>, stopping at the first that raises.
\<close>

theorem queue_ordering:
  assumes "r \<noteq> []" "\<forall>c \<in> set r. is_queue_reference_character c"
    and "s \<noteq> []" "\<forall>c \<in> set s. is_queue_reference_character c"
    and "distinct [r, s, t]"
  shows "\<exists>master.
      and_then (legislate_queue_position ReplacementMaster_init
                  (Replacement_init r None fr) (u '' ROOT''))
        (\<lambda>master1. and_then (legislate_queue_position master1
                                (Replacement_init s None fs) (u '' AFTER #'' @ r))
           (\<lambda>master2. legislate_queue_position master2
                         (Replacement_init t None ft) (u '' BEFORE #'' @ s)))
        = Inr master
      \<and> map replacement_id (replacement_queue master) = [r, t, s]
      \<and> (\<forall>string w. ReplacementMaster_execute master string w
            = and_then (fr string w) (\<lambda>(string1, w1).
                and_then (ft string1 w1) (\<lambda>(string2, w2). fs string2 w2)))"
proof -
  note q = compute_queue_position_match_root
    compute_queue_position_match_reference(2)[OF assms(1,2)]
    compute_queue_position_match_reference(1)[OF assms(3,4)]
  show ?thesis
    using assms(5)
    by (auto simp: q and_then_def legislate_queue_position_def stage_queue_position_def
        ReplacementMaster_commit_def Replacement_commit_def Replacement_init_def
        set_queue_position_type_def set_queue_reference_replacement_def
        ReplacementMaster_init_def list_insert_def ReplacementMaster_execute_def
        Replacement_apply_def split: sum.splits prod.splits)
qed


text \<open>
  With the ids \<open>r\<close>, \<open>s\<close>, \<open>t\<close> and rules that append their own name to the text,
  executing on \<open>x\<close> gives \<open>xrts\<close>.
\<close>

theorem queue_ordering_witness:
  "and_then
     (and_then (legislate_queue_position ReplacementMaster_init
                  (Replacement_init (u ''r'') None (\<lambda>string (w::unit). Inr (string @ u ''r'', w)))
                  (u '' ROOT''))
        (\<lambda>master1. and_then (legislate_queue_position master1
                                (Replacement_init (u ''s'') None (\<lambda>string w. Inr (string @ u ''s'', w)))
                                (u '' AFTER #'' @ u ''r''))
           (\<lambda>master2. legislate_queue_position master2
                         (Replacement_init (u ''t'') None (\<lambda>string w. Inr (string @ u ''t'', w)))
                         (u '' BEFORE #'' @ u ''s''))))
     (\<lambda>master. ReplacementMaster_execute master (u ''x'') ())
   = Inr (u ''xrts'', ())"
proof -
  have h: "u ''r'' \<noteq> []" "\<forall>c \<in> set (u ''r''). is_queue_reference_character c"
    "u ''s'' \<noteq> []" "\<forall>c \<in> set (u ''s''). is_queue_reference_character c"
    "distinct [u ''r'', u ''s'', u ''t'']"
    by (simp_all add: u_def is_queue_reference_character_def)
  from queue_ordering[OF h, of "\<lambda>string (w::unit). Inr (string @ u ''r'', w)"
      "\<lambda>string w. Inr (string @ u ''s'', w)" "\<lambda>string w. Inr (string @ u ''t'', w)"]
  obtain master where
    "and_then (legislate_queue_position ReplacementMaster_init
                  (Replacement_init (u ''r'') None (\<lambda>string (w::unit). Inr (string @ u ''r'', w)))
                  (u '' ROOT''))
        (\<lambda>master1. and_then (legislate_queue_position master1
                                (Replacement_init (u ''s'') None (\<lambda>string w. Inr (string @ u ''s'', w)))
                                (u '' AFTER #'' @ u ''r''))
           (\<lambda>master2. legislate_queue_position master2
                         (Replacement_init (u ''t'') None (\<lambda>string w. Inr (string @ u ''t'', w)))
                         (u '' BEFORE #'' @ u ''s''))) = Inr master"
    and "\<forall>string w. ReplacementMaster_execute master string w
            = and_then (Inr (string @ u ''r'', w)) (\<lambda>(string1, w1).
                and_then (Inr (string1 @ u ''t'', w1)) (\<lambda>(string2, w2). Inr (string2 @ u ''s'', w2)))"
    by blast
  then show ?thesis by (simp add: and_then_def u_def)
qed

subsection \<open>Flag gating\<close>

text \<open>
  C9 (flag gating), as amended. For a committed rule and a call of \<open>apply\<close> that passes
  the enabled flag names: if the positive flag name is set and absent from them, or the
  negative flag name is set and present among them, the text is returned unchanged. When
  the argument is omitted the flags are not consulted and the rule is applied.
\<close>

theorem flag_gating:
  assumes "is_committed replacement"
  shows "(positive_flag_name replacement = Some positive \<and> positive \<notin> set flags
            \<longrightarrow> Replacement_apply replacement string (Some flags) w = Inr (string, w))
       \<and> (negative_flag_name replacement = Some negative \<and> negative \<in> set flags
            \<longrightarrow> Replacement_apply replacement string (Some flags) w = Inr (string, w))
       \<and> Replacement_apply replacement string None w = apply_method replacement string w"
  using assms by (simp add: Replacement_apply_def)

text \<open>Evaluation of dictionary rules on concrete texts.\<close>

lemmas dictionary_eval =
  OrdinaryDictionaryReplacement_apply_def simultaneous_apply_def sequential_apply_def
  simultaneous_regex_pattern_def simultaneous_substitute_function_def re_sub_with_def
  re_scan.simps try_match_def starts_with_def add_substitution_def Replacement_apply_def
  Replacement_commit_def Replacement_init_def set_positive_flag_name_def
  set_negative_flag_name_def and_then_def u_def

text \<open>
  An ordinary dictionary rule that replaces \<open>a\<close> by \<open>b\<close>, gated by the positive flag
  \<open>F\<close>, applied with the enabled flags \<open>[G]\<close>: the text \<open>a\<close> is returned unchanged.
\<close>

theorem flag_gating_witness:
  "and_then (set_positive_flag_name
               (Replacement_init (u ''r'') None
                  (OrdinaryDictionaryReplacement_apply True (add_substitution [] (u ''a'') (u ''b'')) []))
               (Some (u ''F'')))
     (\<lambda>staged. and_then (Replacement_commit staged)
        (\<lambda>replacement. Replacement_apply replacement (u ''a'') (Some [u ''G'']) ()))
   = Inr (u ''a'', ())"
proof -
  let ?r = "\<lparr> is_committed = True, replacement_id = u ''r'', queue_position_type = None,
       queue_reference_replacement = None, positive_flag_name = Some (u ''F''),
       negative_flag_name = None, validate_mandatory_attributes = None,
       apply_method = OrdinaryDictionaryReplacement_apply True
                        (add_substitution [] (u ''a'') (u ''b'')) [] \<rparr> :: unit replacement"
  have "is_committed ?r" by simp
  from flag_gating[OF this, of "u ''F''" "[u ''G'']" "u ''a''" "()"]
  have "Replacement_apply ?r (u ''a'') (Some [u ''G'']) () = Inr (u ''a'', ())"
    by (simp add: u_def)
  then show ?thesis
    by (simp add: and_then_def set_positive_flag_name_def Replacement_init_def Replacement_commit_def)
qed

text \<open>
  C9 as stated includes the call that omits the enabled flag names. The same rule, applied
  to \<open>a\<close> with the argument omitted (as \<open>execute\<close> and every concluding-replacement loop
  of the dictionary rules call it), returns \<open>b\<close>: the guard
  \<^verbatim>\<open>if enabled_flag_names is not None\<close> skips the gating.
\<close>

theorem flag_gating_omitted_flags_applies:
  "and_then (set_positive_flag_name
               (Replacement_init (u ''r'') None
                  (OrdinaryDictionaryReplacement_apply True (add_substitution [] (u ''a'') (u ''b'')) []))
               (Some (u ''F'')))
     (\<lambda>staged. and_then (Replacement_commit staged)
        (\<lambda>replacement. Replacement_apply replacement (u ''a'') None ()))
   = Inr (u ''b'', ())"
  by (simp add: dictionary_eval)

subsection \<open>Ordinary dictionary rules\<close>

text \<open>
  C4 (sequential mode). The rule \<open>#r\<close> replaces \<open>a\<close> by \<open>b\<close> and has the concluding
  replacement \<open>#s\<close>, which replaces \<open>x\<close> by \<open>y\<close>. On the text \<open>xa\<close> the substitute
  \<open>b\<close> passes through \<open>#s\<close> unchanged, so threading the substitute alone gives \<open>xb\<close>,
  which is what the simultaneous mode returns (second equation). In sequential mode
  \<open>sequential_apply\<close> runs the concluding replacements over the whole text after the
  replacements, and the unmatched \<open>x\<close> is rewritten too: the result is \<open>yb\<close>.
\<close>

theorem sequential_apply_concludes_whole_text:
  "and_then (Replacement_commit
               (Replacement_init (u ''s'') None
                  (OrdinaryDictionaryReplacement_apply True (add_substitution [] (u ''x'') (u ''y'')) [])))
     (\<lambda>s. and_then (Replacement_commit
                       (Replacement_init (u ''r'') None
                          (OrdinaryDictionaryReplacement_apply False
                             (add_substitution [] (u ''a'') (u ''b'')) [s])))
        (\<lambda>r. Replacement_apply r (u ''xa'') None ()))
   = Inr (u ''yb'', ())
   \<and>
   and_then (Replacement_commit
               (Replacement_init (u ''s'') None
                  (OrdinaryDictionaryReplacement_apply True (add_substitution [] (u ''x'') (u ''y'')) [])))
     (\<lambda>s. and_then (Replacement_commit
                       (Replacement_init (u ''r'') None
                          (OrdinaryDictionaryReplacement_apply True
                             (add_substitution [] (u ''a'') (u ''b'')) [s])))
        (\<lambda>r. Replacement_apply r (u ''xa'') None ()))
   = Inr (u ''xb'', ())"
  by (simp add: dictionary_eval)

text \<open>
  C5 as stated fails when one pattern is a prefix of another: the alternation takes the
  first alternative that matches. With the pairs \<open>a \<mapsto> X\<close> and \<open>ab \<mapsto> Y\<close> the text
  \<open>ab\<close> becomes \<open>Xb\<close> in one declaration order and \<open>Y\<close> in the other.
\<close>

theorem simultaneous_apply_order_dependent:
  "simultaneous_apply
     (add_substitution (add_substitution [] (u ''a'') (u ''X'')) (u ''ab'') (u ''Y''))
     [] (u ''ab'') () = Inr (u ''Xb'', ())
   \<and> simultaneous_apply
     (add_substitution (add_substitution [] (u ''ab'') (u ''Y'')) (u ''a'') (u ''X''))
     [] (u ''ab'') () = Inr (u ''Y'', ())"
  by (simp add: dictionary_eval)

subsection \<open>Simultaneous mode and declaration order\<close>

lemma starts_with_common:
  assumes "starts_with a p" "starts_with a q" "length p \<le> length q"
  shows "starts_with q p"
proof -
  have "take (length p) q = take (length p) (take (length q) a)"
    using assms(2) by (simp add: starts_with_def)
  also have "\<dots> = take (length p) a" using assms(3) by (simp add: min_def)
  also have "\<dots> = p" using assms(1) by (simp add: starts_with_def)
  finally show ?thesis by (simp add: starts_with_def)
qed

lemma find_unique:
  assumes "\<forall>x \<in> set xs. \<forall>y \<in> set xs. P x \<and> P y \<longrightarrow> x = y"
  shows "find P xs = Some x \<longleftrightarrow> x \<in> set xs \<and> P x"
  using assms
proof (induction xs)
  case Nil then show ?case by simp
next
  case (Cons a xs)
  then show ?case by (cases "P a") auto
qed

lemma find_same_set:
  assumes "set xs = set ys" "\<forall>x \<in> set xs. \<forall>y \<in> set xs. P x \<and> P y \<longrightarrow> x = y"
  shows "find P xs = find P ys"
proof (cases "find P xs")
  case None
  then have "\<forall>x \<in> set ys. \<not> P x" using assms(1) by (simp add: find_None_iff)
  then have "find P ys = None" by (simp add: find_None_iff)
  then show ?thesis using None by simp
next
  case (Some x)
  then have "x \<in> set ys \<and> P x" using assms find_unique[of xs P x] by simp
  moreover have "\<forall>x \<in> set ys. \<forall>y \<in> set ys. P x \<and> P y \<longrightarrow> x = y" using assms by simp
  ultimately show ?thesis using Some find_unique[of ys P x] by simp
qed

lemma simultaneous_regex_pattern_order:
  assumes "set (map fst ps) = set (map fst qs)" "prefix_free (map fst ps)"
  shows "simultaneous_regex_pattern ps = simultaneous_regex_pattern qs"
proof (intro ext)
  fix adv behind ahead
  let ?P = "\<lambda>pattern. starts_with ahead pattern \<and> \<not> (adv \<and> pattern = [])"
  have "\<forall>x \<in> set (map fst ps). \<forall>y \<in> set (map fst ps). ?P x \<and> ?P y \<longrightarrow> x = y"
  proof (intro ballI impI)
    fix x y assume x: "x \<in> set (map fst ps)" and y: "y \<in> set (map fst ps)" and p: "?P x \<and> ?P y"
    show "x = y"
    proof (cases "length x \<le> length y")
      case True
      then have "starts_with y x" using p starts_with_common by blast
      then show ?thesis using assms(2) x y unfolding prefix_free_def by blast
    next
      case False
      then have "starts_with x y" using p starts_with_common[of ahead y x] by simp
      then show ?thesis using assms(2) x y unfolding prefix_free_def by blast
    qed
  qed
  then have "find ?P (map fst ps) = find ?P (map fst qs)"
    using assms(1) by (rule find_same_set[rotated])
  then show "simultaneous_regex_pattern ps adv behind ahead = simultaneous_regex_pattern qs adv behind ahead"
    by (simp add: simultaneous_regex_pattern_def)
qed

lemma update_fresh: "k \<notin> fst ` set xs \<Longrightarrow> AList.update k v xs = xs @ [(k, v)]"
  by (induction xs) auto

lemma declare_distinct_fold:
  "distinct (map fst ds) \<Longrightarrow> fst ` set ds \<inter> fst ` set acc = {} \<Longrightarrow>
     fold (\<lambda>(pattern, substitute) d. add_substitution d pattern substitute) ds acc = acc @ ds"
proof (induction ds arbitrary: acc)
  case Nil then show ?case by simp
next
  case (Cons a ds)
  obtain k v where a: "a = (k, v)" by (cases a)
  have "AList.update k v acc = acc @ [(k, v)]"
    using Cons.prems a by (intro update_fresh) auto
  moreover have "fst ` set ds \<inter> fst ` set (acc @ [(k, v)]) = {}"
    using Cons.prems a by auto
  ultimately show ?case using Cons a by (simp add: add_substitution_def)
qed

lemma declare_substitutions_distinct:
  "distinct (map fst ds) \<Longrightarrow> declare_substitutions ds = ds"
  by (simp add: declare_substitutions_def declare_distinct_fold)

lemma simultaneous_apply_reordered:
  assumes "distinct (map fst declared)" "distinct (map fst reordered)"
    and "set declared = set reordered"
    and "prefix_free (map fst declared)"
  shows "simultaneous_apply (declare_substitutions declared) concluding_replacements
       = simultaneous_apply (declare_substitutions reordered) concluding_replacements"
proof (intro ext)
  fix string and w :: 'a
  have d: "declare_substitutions declared = declared" "declare_substitutions reordered = reordered"
    using assms(1,2) by (simp_all add: declare_substitutions_distinct)
  have k: "set (map fst declared) = set (map fst reordered)" using assms(3) by simp
  have m: "simultaneous_regex_pattern declared = simultaneous_regex_pattern reordered"
    using k assms(4) by (rule simultaneous_regex_pattern_order)
  have "map_of declared = map_of reordered"
    using assms(1-3) by (simp add: map_of_inject_set)
  then have f: "simultaneous_substitute_function declared concluding_replacements
        = simultaneous_substitute_function reordered concluding_replacements"
    by (intro ext) (simp add: simultaneous_substitute_function_def)
  have l: "(length declared > 0) = (length reordered > 0)"
    using assms(3) by (metis length_greater_0_conv set_empty)
  show "simultaneous_apply (declare_substitutions declared) concluding_replacements string w
      = simultaneous_apply (declare_substitutions reordered) concluding_replacements string w"
    unfolding d simultaneous_apply_def m f l ..
qed

text \<open>
  C5 (simultaneous mode and declaration order), as amended. Two rules in simultaneous
  mode declare the same pattern-to-substitute pairs, with pairwise distinct patterns, in
  two orders, and have the same concluding replacements. If no pattern is a prefix of
  another pattern, the two committed rules give the same result on every text, with every
  set of enabled flags and in every state.
\<close>

theorem simultaneous_apply_order_independent:
  assumes "distinct (map fst declared)" "distinct (map fst reordered)"
    and "set declared = set reordered"
    and "prefix_free (map fst declared)"
  shows "and_then (Replacement_commit
                     (Replacement_init id1 None
                        (OrdinaryDictionaryReplacement_apply True
                           (declare_substitutions declared) concluding_replacements)))
           (\<lambda>replacement. Replacement_apply replacement string enabled_flag_names w)
       = and_then (Replacement_commit
                     (Replacement_init id2 None
                        (OrdinaryDictionaryReplacement_apply True
                           (declare_substitutions reordered) concluding_replacements)))
           (\<lambda>replacement. Replacement_apply replacement string enabled_flag_names w)"
  using simultaneous_apply_reordered[OF assms, of concluding_replacements]
  by (simp add: and_then_def Replacement_commit_def Replacement_init_def
      Replacement_apply_def OrdinaryDictionaryReplacement_apply_def split: option.splits)

text \<open>
  The pairs \<open>a \<mapsto> X\<close> and \<open>b \<mapsto> Y\<close> in both orders: the text \<open>ab\<close> becomes \<open>XY\<close>.
\<close>

theorem simultaneous_apply_order_independent_witness:
  "and_then (Replacement_commit
               (Replacement_init (u ''p'') None
                  (OrdinaryDictionaryReplacement_apply True
                     (declare_substitutions [(u ''a'', u ''X''), (u ''b'', u ''Y'')]) [])))
     (\<lambda>replacement. Replacement_apply replacement (u ''ab'') None ())
   = and_then (Replacement_commit
               (Replacement_init (u ''q'') None
                  (OrdinaryDictionaryReplacement_apply True
                     (declare_substitutions [(u ''b'', u ''Y''), (u ''a'', u ''X'')]) [])))
     (\<lambda>replacement. Replacement_apply replacement (u ''ab'') None ())
   \<and> and_then (Replacement_commit
               (Replacement_init (u ''q'') None
                  (OrdinaryDictionaryReplacement_apply True
                     (declare_substitutions [(u ''b'', u ''Y''), (u ''a'', u ''X'')]) [])))
     (\<lambda>replacement. Replacement_apply replacement (u ''ab'') None ())
   = Inr (u ''XY'', ())"
proof
  show "and_then (Replacement_commit
               (Replacement_init (u ''p'') None
                  (OrdinaryDictionaryReplacement_apply True
                     (declare_substitutions [(u ''a'', u ''X''), (u ''b'', u ''Y'')]) [])))
     (\<lambda>replacement. Replacement_apply replacement (u ''ab'') None ())
   = and_then (Replacement_commit
               (Replacement_init (u ''q'') None
                  (OrdinaryDictionaryReplacement_apply True
                     (declare_substitutions [(u ''b'', u ''Y''), (u ''a'', u ''X'')]) [])))
     (\<lambda>replacement. Replacement_apply replacement (u ''ab'') None ())"
    by (rule simultaneous_apply_order_independent)
       (auto simp: prefix_free_def starts_with_def u_def)
  show "and_then (Replacement_commit
               (Replacement_init (u ''q'') None
                  (OrdinaryDictionaryReplacement_apply True
                     (declare_substitutions [(u ''b'', u ''Y''), (u ''a'', u ''X'')]) [])))
     (\<lambda>replacement. Replacement_apply replacement (u ''ab'') None ())
   = Inr (u ''XY'', ())"
    by (simp add: dictionary_eval declare_substitutions_def)
qed

section \<open>Attribute merging\<close>

subsection \<open>The documented example\<close>

lemmas attribute_eval =
  build_attributes_sequence_def compute_attribute_specification_matches_def re_finditer_def
  re_scan.simps try_match_def attribute_specification_pattern_def attribute_alternative_def
  quoted_value_def starts_with_def is_space_def is_ascii_digit_def expand_abbreviation_def
  ATTRIBUTE_NAME_FROM_ABBREVIATION_def format_value_def u_def Let_def

lemma matches_example:
  "compute_attribute_specification_matches (u ''id=x #y .a .b name=value .=c class=\"d\"'')
   = [NameBare (u ''id'') (u ''x''), IdGroup (u ''y''), ClassGroup (u ''a''),
      ClassGroup (u ''b''), NameBare (u ''name'') (u ''value''),
      NameBare (u ''.'') (u ''c''), NameDoubleQuoted (u ''class'') (u ''d''), NoGroup]"
  by (simp add: attribute_eval)

lemma merged_example:
  "merge_attributes []
     (map extract_attribute_name_and_value
        [NameBare (u ''id'') (u ''x''), IdGroup (u ''y''), ClassGroup (u ''a''),
         ClassGroup (u ''b''), NameBare (u ''name'') (u ''value''),
         NameBare (u ''.'') (u ''c''), NameDoubleQuoted (u ''class'') (u ''d''), NoGroup])
   = Inr [(u ''id'', Some (u ''y'')), (u ''class'', Some (u ''a b c d'')),
          (u ''name'', Some (u ''value''))]"
  by (simp add: expand_abbreviation_def ATTRIBUTE_NAME_FROM_ABBREVIATION_def format_value_def u_def)

lemmas escape_eval =
  escape_attribute_value_html_def re_sub_string_def re_scan.simps try_match_def
  ampersand_pattern_def character_pattern_def entity_follows_def run_then_semicolon_def
  starts_with_def is_ascii_letter_def is_ascii_digit_def is_hex_digit_def u_def Let_def

lemma sequence_example:
  "attribute_sequence [(u ''id'', Some (u ''y'')), (u ''class'', Some (u ''a b c d'')),
          (u ''name'', Some (u ''value''))]
   = Inr (u '' id=\"y\" class=\"a b c d\" name=\"value\"'')"
  apply (simp add: placeholder_eval u_def)
  apply (simp add: escape_eval)
  done


lemma build_attributes_sequence_example:
  "build_attributes_sequence (u ''id=x #y .a .b name=value .=c class=\"d\"'') False
     = Inr (u '' id=\"y\" class=\"a b c d\" name=\"value\"'')"
  by (simp only: build_attributes_sequence_def matches_example merged_example
      sequence_example sum.case if_False)

subsection \<open>The merging rule without the bare word \<open>class\<close>\<close>

text \<open>
  When no specification is the bare word \<open>class\<close> (a boolean attribute named
  \<open>class\<close>), merging succeeds (\<open>merge_attributes_succeeds\<close>), the latest
  specification of a name other than \<open>class\<close> prevails
  (\<open>latest_specification_wins\<close>), and the class values are joined in encounter order
  (\<open>class_values_appended\<close>).
\<close>

lemma merge_attributes_append:
  "merge_attributes d (xs @ ys)
     = (case merge_attributes d xs of Inl e \<Rightarrow> Inl e | Inr d1 \<Rightarrow> merge_attributes d1 ys)"
  by (induction xs arbitrary: d) (simp_all split: sum.splits)

lemma merge_attribute_succeeds:
  assumes "x \<noteq> Some (NameAndValue (u ''class'') None)"
    and "map_of d (u ''class'') \<noteq> Some None"
  shows "\<exists>d1. merge_attribute d x = Inr d1 \<and> map_of d1 (u ''class'') \<noteq> Some None"
proof (cases x)
  case None
  then show ?thesis using assms by simp
next
  case (Some nv)
  show ?thesis
  proof (cases nv)
    case (NameAndValue name val)
    then show ?thesis using Some assms
      by (cases "map_of d (u ''class'')")
         (auto simp: update_conv' split: option.splits)
  next
    case (NameOnly name)
    then show ?thesis using Some assms by (simp add: delete_conv')
  qed
qed

lemma merge_attributes_succeeds:
  assumes "\<forall>x \<in> set specs. x \<noteq> Some (NameAndValue (u ''class'') None)"
    and "map_of d (u ''class'') \<noteq> Some None"
  shows "\<exists>d1. merge_attributes d specs = Inr d1"
  using assms
proof (induction specs arbitrary: d)
  case Nil
  then show ?case by simp
next
  case (Cons x specs)
  then obtain d1 where "merge_attribute d x = Inr d1" "map_of d1 (u ''class'') \<noteq> Some None"
    using merge_attribute_succeeds[of x d] by auto
  then show ?case using Cons by simp
qed

lemma merge_attribute_other_name:
  assumes "specified_name x \<noteq> Some name" "name \<noteq> u ''class''"
    and "merge_attribute d x = Inr d1"
  shows "map_of d1 name = map_of d name"
proof (cases x)
  case None
  then show ?thesis using assms by simp
next
  case (Some nv)
  show ?thesis
  proof (cases nv)
    case (NameAndValue other val)
    then show ?thesis using Some assms
      by (auto simp: update_conv' split: if_splits option.splits)
  next
    case (NameOnly other)
    then show ?thesis using Some assms by (auto simp: delete_conv')
  qed
qed

lemma merge_attributes_other_names:
  assumes "\<forall>x \<in> set specs. specified_name x \<noteq> Some name" "name \<noteq> u ''class''"
    and "merge_attributes d specs = Inr d1"
  shows "map_of d1 name = map_of d name"
  using assms
proof (induction specs arbitrary: d)
  case Nil
  then show ?case by simp
next
  case (Cons x specs)
  then obtain d2 where s: "merge_attribute d x = Inr d2" and r: "merge_attributes d2 specs = Inr d1"
    by (auto split: sum.splits)
  have "map_of d2 name = map_of d name"
    using merge_attribute_other_name[OF _ Cons.prems(2) s] Cons.prems(1) by simp
  moreover have "map_of d1 name = map_of d2 name"
    using Cons.IH[OF _ Cons.prems(2) r] Cons.prems(1) by simp
  ultimately show ?case by simp
qed

lemma latest_specification_wins:
  assumes "name \<noteq> u ''class''"
    and "\<forall>x \<in> set later. specified_name x \<noteq> Some name"
    and "merge_attributes d (earlier @ Some (NameAndValue name value) # later) = Inr d1"
  shows "map_of d1 name = Some value"
proof -
  obtain d2 where e: "merge_attributes d earlier = Inr d2"
    and r: "merge_attributes d2 (Some (NameAndValue name value) # later) = Inr d1"
    using assms(3) by (auto simp: merge_attributes_append split: sum.splits)
  have r': "merge_attributes (AList.update name value d2) later = Inr d1"
    using r assms(1) by simp
  show ?thesis
    using merge_attributes_other_names[OF assms(2,1) r'] by (simp add: update_conv')
qed

lemma merge_attributes_class:
  assumes "\<forall>x \<in> set specs. x \<noteq> Some (NameAndValue (u ''class'') None)
                          \<and> x \<noteq> Some (NameOnly (u ''class''))"
    and "map_of d (u ''class'') \<noteq> Some None"
    and "merge_attributes d specs = Inr d1"
  shows "map_of d1 (u ''class'') = appended (map_of d (u ''class'')) (class_values specs)"
  using assms
proof (induction specs arbitrary: d)
  case Nil
  then show ?case by simp
next
  case (Cons x specs)
  obtain d2 where s: "merge_attribute d x = Inr d2" and r: "merge_attributes d2 specs = Inr d1"
    using Cons.prems(3) by (auto split: sum.splits)
  have n: "map_of d2 (u ''class'') \<noteq> Some None"
    using merge_attribute_succeeds[of x d] Cons.prems(1,2) s by auto
  have ih: "map_of d1 (u ''class'') = appended (map_of d2 (u ''class'')) (class_values specs)"
    using Cons.IH[OF _ n r] Cons.prems(1) by simp
  show ?case
  proof (cases x)
    case None
    then show ?thesis using s ih by simp
  next
    case (Some nv)
    show ?thesis
    proof (cases nv)
      case (NameOnly name)
      then have "name \<noteq> u ''class''" using Some Cons.prems(1) by auto
      then show ?thesis using Some NameOnly s ih by (auto simp: delete_conv')
    next
      case (NameAndValue name val)
      show ?thesis
      proof (cases "name = u ''class''")
        case False
        then show ?thesis using Some NameAndValue s ih
          by (cases val) (auto simp: update_conv')
      next
        case True
        then obtain v where v: "val = Some v"
          using Some NameAndValue Cons.prems(1) by (cases val) auto
        show ?thesis
        proof (cases "map_of d (u ''class'')")
          case None
          then show ?thesis using Some NameAndValue True v s ih
            by (auto simp: update_conv')
        next
          case (Some previous)
          then obtain p where "previous = Some p" using Cons.prems(2) by (cases previous) auto
          then show ?thesis using Some \<open>x = Some nv\<close> NameAndValue True v s ih
            by (auto simp: update_conv' format_value_def)
        qed
      qed
    qed
  qed
qed

lemma appended_join: "appended (Some (Some p)) vs = Some (Some (join_with_space (p # vs)))"
proof (induction vs arbitrary: p)
  case Nil
  then show ?case by simp
next
  case (Cons v vs)
  have "join_with_space ((p @ u '' '' @ v) # vs) = p @ u '' '' @ join_with_space (v # vs)"
    by (cases vs) simp_all
  then show ?case using Cons by simp
qed

lemma class_values_appended:
  assumes "\<forall>x \<in> set specs. x \<noteq> Some (NameAndValue (u ''class'') None)
                          \<and> x \<noteq> Some (NameOnly (u ''class''))"
    and "class_values specs \<noteq> []"
    and "merge_attributes [] specs = Inr d1"
  shows "map_of d1 (u ''class'') = Some (Some (join_with_space (class_values specs)))"
proof -
  obtain v vs where c: "class_values specs = v # vs"
    using assms(2) by (cases "class_values specs") auto
  have "map_of d1 (u ''class'') = appended None (class_values specs)"
    using merge_attributes_class[OF assms(1) _ assms(3)] by simp
  then show ?thesis by (simp add: c appended_join)
qed


subsection \<open>The bare word \<open>class\<close>\<close>

text \<open>
  C7 (attribute merging). The documented example gives
  \<^verbatim>\<open> id="y" class="a b c d" name="value"\<close> (third equation). The rule that class values
  are appended in encounter order breaks on the bare word \<open>class\<close>, which is stored as
  a boolean attribute with the value \<open>None\<close>: a class value that follows it makes
  \<open>+=\<close> raise \<open>TypeError\<close>, which no handler catches (first equation), and when it
  follows a class value the text \<open>None\<close> is appended (second equation).
\<close>

theorem class_value_after_boolean_class_raises:
  "build_attributes_sequence (u ''class .a'') False = Inl TypeError
   \<and> build_attributes_sequence (u ''.a class'') False = Inr (u '' class=\"a None\"'')
   \<and> build_attributes_sequence (u ''id=x #y .a .b name=value .=c class=\"d\"'') False
       = Inr (u '' id=\"y\" class=\"a b c d\" name=\"value\"'')"
proof -
  have 1: "build_attributes_sequence (u ''class .a'') False = Inl TypeError"
    by (simp add: attribute_eval)
  have m: "merge_attributes []
             (map extract_attribute_name_and_value
                (compute_attribute_specification_matches (u ''.a class'')))
           = Inr [(u ''class'', Some (u ''a None''))]"
    by (simp add: attribute_eval)
  have s: "attribute_sequence [(u ''class'', Some (u ''a None''))]
           = Inr (u '' class=\"a None\"'')"
    apply (simp add: placeholder_eval u_def)
    apply (simp add: escape_eval)
    done
  have 2: "build_attributes_sequence (u ''.a class'') False = Inr (u '' class=\"a None\"'')"
    by (simp only: build_attributes_sequence_def m s sum.case if_False)
  show ?thesis using 1 2 build_attributes_sequence_example by simp
qed

section \<open>Unresolved references\<close>

text \<open>
  C8 (unresolved reference fallback), as amended. Let the label of a match (the bracketed
  text when the label group is absent or empty), lower-cased, have no entry in the
  reference table. The substitute function of a referenced link returns the matched text
  unchanged. The substitute function of a referenced image protects the alt text before it
  looks the label up; whenever that protection returns, it returns the matched text
  unchanged as well.
\<close>

theorem unresolved_reference_fallback:
  assumes "map_of references (lower (effective_label groups)) = None"
  shows "referenced_link_substitute_function lower references attribute_specifications
           (matched_text, groups) = Inr matched_text
       \<and> ((\<exists>alt_protected. protect (bracketed_text groups) = Inr alt_protected) \<longrightarrow>
            referenced_image_substitute_function lower references attribute_specifications
              (matched_text, groups) = Inr matched_text)"
  using assms
  by (auto simp: referenced_link_substitute_function_def referenced_image_substitute_function_def
      load_definition_def and_then_def)

text \<open>Evaluation of the substitute functions on concrete matches.\<close>

lemmas reference_eval =
  referenced_link_substitute_function_def referenced_image_substitute_function_def
  load_definition_def effective_label_def and_then_def

text \<open>
  The link \<open>[text][Missing]\<close> and the image \<open>![text][Missing]\<close> with an empty reference
  table.
\<close>

theorem unresolved_reference_fallback_witness:
  "referenced_link_substitute_function (map (\<lambda>c. if 65 \<le> c \<and> c \<le> 90 then c + 32 else c)) []
     None
     (u ''[text][Missing]'',
      \<lparr> bracketed_text = u ''text'', label_group = Some (u ''Missing''),
        attribute_specifications_group = None \<rparr>) = Inr (u ''[text][Missing]'')
   \<and> referenced_image_substitute_function
     (map (\<lambda>c. if 65 \<le> c \<and> c \<le> 90 then c + 32 else c)) [] None
     (u ''![text][Missing]'',
      \<lparr> bracketed_text = u ''text'', label_group = Some (u ''Missing''),
        attribute_specifications_group = None \<rparr>) = Inr (u ''![text][Missing]'')"
proof -
  let ?lower = "map (\<lambda>c::nat. if 65 \<le> c \<and> c \<le> 90 then c + 32 else c)"
  let ?groups = "\<lparr> bracketed_text = u ''text'', label_group = Some (u ''Missing''),
        attribute_specifications_group = None \<rparr>"
  have n: "map_of ([] :: reference_master) (?lower (effective_label ?groups)) = None"
    by simp
  have p: "\<exists>alt_protected. protect (bracketed_text ?groups) = Inr alt_protected"
    by (simp add: placeholder_eval u_def)
  note t = unresolved_reference_fallback[where lower = ?lower and references = "[]"
      and groups = ?groups and attribute_specifications = None, OF n]
  from t[of "u ''[text][Missing]''"] t[of "u ''![text][Missing]''"] p
  show ?thesis by blast
qed

text \<open>
  C8 as stated covers every referenced-image match. For an image whose alt text is the
  lone surrogate U+D800 and whose label is not defined, the substitute function raises
  \<open>UnicodeEncodeError\<close> from \<open>protect\<close>, before the reference table is consulted.
\<close>

theorem referenced_image_unresolved_raises:
  "map_of ([] :: reference_master) [0xD800] = None
   \<and> referenced_image_substitute_function (\<lambda>label. label) [] None
     ([33, 91, 0xD800, 93],
      \<lparr> bracketed_text = [0xD800], label_group = None,
        attribute_specifications_group = None \<rparr>) = Inl UnicodeEncodeError"
  by (simp add: reference_eval placeholder_eval)

section \<open>De-indentation refines its specification\<close>

subsection \<open>Scanning with a pattern anchored at the start of a line\<close>

lemma re_scan_none:
  "try_match m adv behind (c # cs) = None \<Longrightarrow>
     re_scan m adv behind (c # cs) = Inl c # re_scan m False (c # behind) cs"
  by (subst re_scan.simps) simp

lemma re_scan_end:
  "try_match m adv behind [] = None \<Longrightarrow> re_scan m adv behind [] = []"
  by (subst re_scan.simps) simp

lemma re_scan_match:
  "try_match m adv behind s = Some (n, g) \<Longrightarrow> 0 < n \<Longrightarrow>
     re_scan m adv behind s
       = Inr (take n s, g) # re_scan m False (rev (take n s) @ behind) (drop n s)"
  by (subst re_scan.simps) simp

lemma re_scan_empty_match:
  "try_match m adv behind s = Some (0, g) \<Longrightarrow>
     re_scan m adv behind s = Inr ([], g) # re_scan m True behind s"
  by (subst re_scan.simps) simp

lemma anchored_try_match:
  "anchored m \<Longrightarrow> \<not> at_line_start behind \<Longrightarrow> try_match m adv behind ahead = None"
  by (simp add: anchored_def try_match_def)

lemma not_at_line_start_Cons: "c \<noteq> 10 \<Longrightarrow> \<not> at_line_start (c # behind)"
  by (simp add: at_line_start_def)

lemma at_line_start_newline: "at_line_start (10 # behind)"
  by (simp add: at_line_start_def)

lemma re_scan_skip:
  assumes "anchored m" "\<not> at_line_start behind" "10 \<notin> set xs" "xs \<noteq> [] \<or> \<not> adv"
  shows "re_scan m adv behind (xs @ rest) = map Inl xs @ re_scan m False (rev xs @ behind) rest"
  using assms(2-4)
proof (induction xs arbitrary: behind adv)
  case Nil
  then show ?case by simp
next
  case (Cons c cs)
  have "try_match m adv behind (c # cs @ rest) = None"
    using anchored_try_match[OF assms(1) Cons.prems(1)] .
  then have "re_scan m adv behind ((c # cs) @ rest) = Inl c # re_scan m False (c # behind) (cs @ rest)"
    by (simp add: re_scan_none)
  moreover have "re_scan m False (c # behind) (cs @ rest)
      = map Inl cs @ re_scan m False (rev cs @ c # behind) rest"
    using Cons.prems by (intro Cons.IH) (auto simp: not_at_line_start_Cons)
  ultimately show ?case by simp
qed

text \<open>The rest of a line after a position that is not at its start, and the line break.\<close>

lemma re_scan_rest_of_line:
  assumes "anchored m" "\<not> at_line_start behind" "10 \<notin> set xs" "xs \<noteq> [] \<or> \<not> adv"
  shows "re_scan m adv behind xs = map Inl xs"
    and "re_scan m adv behind (xs @ 10 # r)
           = map Inl xs @ Inl 10 # re_scan m False (10 # rev xs @ behind) r"
proof -
  have n: "\<not> at_line_start (rev xs @ behind)"
    using assms(2,3) by (cases xs rule: rev_cases) (auto simp: at_line_start_def)
  have "re_scan m False (rev xs @ behind) [] = []"
    using anchored_try_match[OF assms(1) n] by (simp add: re_scan_end)
  then show "re_scan m adv behind xs = map Inl xs"
    using re_scan_skip[OF assms, of "[]"] by simp
  have "re_scan m False (rev xs @ behind) (10 # r) = Inl 10 # re_scan m False (10 # rev xs @ behind) r"
    using anchored_try_match[OF assms(1) n] by (simp add: re_scan_none)
  then show "re_scan m adv behind (xs @ 10 # r)
           = map Inl xs @ Inl 10 # re_scan m False (10 # rev xs @ behind) r"
    using re_scan_skip[OF assms, of "10 # r"] by simp
qed

text \<open>A line at whose start the pattern does not match.\<close>

lemma re_scan_unmatched_line:
  assumes "anchored m" "10 \<notin> set l"
  shows "try_match m adv behind l = None \<Longrightarrow> re_scan m adv behind l = map Inl l"
    and "try_match m adv behind (l @ 10 # r) = None \<Longrightarrow>
           re_scan m adv behind (l @ 10 # r)
             = map Inl l @ Inl 10 # re_scan m False (10 # rev l @ behind) r"
proof -
  show "try_match m adv behind l = None \<Longrightarrow> re_scan m adv behind l = map Inl l"
  proof (cases l)
    case Nil
    assume "try_match m adv behind l = None"
    then show ?thesis using Nil by (simp add: re_scan_end)
  next
    case (Cons c cs)
    assume "try_match m adv behind l = None"
    then have "re_scan m adv behind l = Inl c # re_scan m False (c # behind) cs"
      using Cons by (simp add: re_scan_none)
    moreover have "re_scan m False (c # behind) cs = map Inl cs"
      using assms Cons by (intro re_scan_rest_of_line(1)) (auto simp: not_at_line_start_Cons)
    ultimately show ?thesis using Cons by simp
  qed
  show "try_match m adv behind (l @ 10 # r) = None \<Longrightarrow>
           re_scan m adv behind (l @ 10 # r)
             = map Inl l @ Inl 10 # re_scan m False (10 # rev l @ behind) r"
  proof (cases l)
    case Nil
    assume "try_match m adv behind (l @ 10 # r) = None"
    then show ?thesis using Nil by (simp add: re_scan_none)
  next
    case (Cons c cs)
    assume "try_match m adv behind (l @ 10 # r) = None"
    then have "re_scan m adv behind (l @ 10 # r) = Inl c # re_scan m False (c # behind) (cs @ 10 # r)"
      using Cons by (simp add: re_scan_none)
    moreover have "re_scan m False (c # behind) (cs @ 10 # r)
        = map Inl cs @ Inl 10 # re_scan m False (10 # rev cs @ c # behind) r"
      using assms Cons by (intro re_scan_rest_of_line(2)) (auto simp: not_at_line_start_Cons)
    ultimately show ?thesis using Cons by simp
  qed
qed

subsection \<open>Lines\<close>

lemma split_lines_not_Nil: "split_lines s \<noteq> []"
  by (induction s) (auto split: list.splits)

lemma split_lines_no_newline: "l \<in> set (split_lines s) \<Longrightarrow> 10 \<notin> set l"
proof (induction s arbitrary: l)
  case Nil
  then show ?case by simp
next
  case (Cons c cs)
  then show ?case
    by (cases "split_lines cs") (auto split: if_splits)
qed

lemma join_lines_Cons: "ls \<noteq> [] \<Longrightarrow> join_lines (l # ls) = l @ 10 # join_lines ls"
  by (cases ls) simp_all

lemma join_split_lines: "join_lines (split_lines s) = s"
proof (induction s)
  case Nil
  then show ?case by simp
next
  case (Cons c cs)
  show ?case
  proof (cases "c = 10")
    case True
    then show ?thesis using Cons by (simp add: join_lines_Cons split_lines_not_Nil)
  next
    case False
    obtain l ls where s: "split_lines cs = l # ls"
      using split_lines_not_Nil by (cases "split_lines cs") auto
    then have "join_lines ((c # l) # ls) = c # join_lines (l # ls)"
      by (cases ls) simp_all
    then show ?thesis using Cons False s by simp
  qed
qed

lemma lines_ok_split: "lines_ok (split_lines s)"
  using split_lines_no_newline by (auto simp: lines_ok_def split_lines_not_Nil)

lemma lines_ok_erase: "lines_ok ls \<Longrightarrow> lines_ok (erase_trailing_whitespace_line ls)"
  by (auto simp: lines_ok_def erase_trailing_whitespace_line_def dest: in_set_butlastD)

lemma erase_Cons:
  "ls \<noteq> [] \<Longrightarrow> erase_trailing_whitespace_line (l # ls) = l # erase_trailing_whitespace_line ls"
  by (simp add: erase_trailing_whitespace_line_def)

lemma erase_not_Nil: "ls \<noteq> [] \<Longrightarrow> erase_trailing_whitespace_line ls \<noteq> []"
  by (simp add: erase_trailing_whitespace_line_def)

subsection \<open>Erasing the trailing whitespace-only line\<close>

lemma anchored_trailing_whitespace_pattern: "anchored trailing_whitespace_pattern"
  by (simp add: anchored_def trailing_whitespace_pattern_def)

lemma horizontal_not_newline: "is_horizontal_space c \<Longrightarrow> c \<noteq> 10"
  by (simp add: is_horizontal_space_def)

lemma trailing_whitespace_lines:
  assumes "lines_ok ls" "at_line_start behind"
  shows "replace_events [] (re_scan trailing_whitespace_pattern False behind (join_lines ls))
           = join_lines (erase_trailing_whitespace_line ls)"
  using assms
proof (induction ls arbitrary: behind)
  case Nil
  then show ?case by (simp add: lines_ok_def)
next
  case (Cons l ls)
  note a = anchored_trailing_whitespace_pattern
  have nl: "10 \<notin> set l" using Cons.prems(1) by (simp add: lines_ok_def)
  show ?case
  proof (cases ls)
    case Nil
    show ?thesis
    proof (cases "is_whitespace_only l")
      case True
      then have "try_match trailing_whitespace_pattern False behind l = Some (length l, ())"
        using Cons.prems(2)
        by (simp add: try_match_def trailing_whitespace_pattern_def is_whitespace_only_def)
      moreover have "0 < length l" using True by (simp add: is_whitespace_only_def)
      ultimately have "re_scan trailing_whitespace_pattern False behind l
          = Inr (l, ()) # re_scan trailing_whitespace_pattern False (rev l @ behind) []"
        using re_scan_match[of trailing_whitespace_pattern False behind l "length l" "()"] by simp
      moreover have "re_scan trailing_whitespace_pattern False (rev l @ behind) [] = []"
        by (simp add: re_scan_end try_match_def trailing_whitespace_pattern_def)
      ultimately show ?thesis
        using Nil True by (simp add: erase_trailing_whitespace_line_def)
    next
      case False
      then have "try_match trailing_whitespace_pattern False behind l = None"
        by (simp add: try_match_def trailing_whitespace_pattern_def is_whitespace_only_def)
      then have "re_scan trailing_whitespace_pattern False behind l = map Inl l"
        using re_scan_unmatched_line(1)[OF a nl] by simp
      moreover have "replace_events [] (map Inl l :: (nat + str \<times> unit) list) = l"
        by (induction l) simp_all
      ultimately show ?thesis
        using Nil False by (simp add: erase_trailing_whitespace_line_def)
    qed
  next
    case (Cons m ms)
    then have ok: "lines_ok ls" using Cons.prems(1) by (simp add: lines_ok_def)
    have j: "join_lines (l # ls) = l @ 10 # join_lines ls"
      using Cons by (simp add: join_lines_Cons)
    have "\<not> list_all is_horizontal_space (l @ 10 # join_lines ls)"
      by (simp add: is_horizontal_space_def)
    then have "try_match trailing_whitespace_pattern False behind (l @ 10 # join_lines ls) = None"
      by (simp add: try_match_def trailing_whitespace_pattern_def)
    then have "re_scan trailing_whitespace_pattern False behind (l @ 10 # join_lines ls)
        = map Inl l @ Inl 10
            # re_scan trailing_whitespace_pattern False (10 # rev l @ behind) (join_lines ls)"
      using re_scan_unmatched_line(2)[OF a nl] by simp
    moreover have "replace_events [] (re_scan trailing_whitespace_pattern False
                      (10 # rev l @ behind) (join_lines ls))
        = join_lines (erase_trailing_whitespace_line ls)"
      using Cons.IH[OF ok at_line_start_newline] .
    moreover have "\<And>es. replace_events [] (map Inl l @ es) = l @ replace_events [] (es :: (nat + str \<times> unit) list)"
      by (induction l) simp_all
    ultimately show ?thesis
      using Cons j by (simp add: erase_Cons join_lines_Cons erase_not_Nil)
  qed
qed

lemma erase_trailing_step:
  "re_sub_string trailing_whitespace_pattern [] s
     = join_lines (erase_trailing_whitespace_line (split_lines s))"
  using trailing_whitespace_lines[OF lines_ok_split, of "[]" s]
  by (simp add: re_sub_string_def join_split_lines at_line_start_def)

subsection \<open>Collecting the indentations\<close>

lemma anchored_indentation_pattern: "anchored indentation_pattern"
  by (simp add: anchored_def indentation_pattern_def)

lemma matched_texts_literals: "matched_texts (map Inl l @ es) = matched_texts es"
  by (induction l) simp_all

lemma takeWhile_line:
  "10 \<notin> set l \<Longrightarrow> takeWhile is_horizontal_space (l @ 10 # r) = takeWhile is_horizontal_space l"
  by (induction l) (auto simp: is_horizontal_space_def)

lemma take_leading_whitespace:
  "take (length (takeWhile is_horizontal_space l)) (l @ rest) = takeWhile is_horizontal_space l"
proof -
  have "l = takeWhile is_horizontal_space l @ dropWhile is_horizontal_space l" by simp
  then have "l @ rest = takeWhile is_horizontal_space l @ (dropWhile is_horizontal_space l @ rest)"
    by (metis append.assoc)
  then show ?thesis by (metis append_eq_conv_conj)
qed

lemma drop_leading_whitespace:
  "drop (length (takeWhile is_horizontal_space l)) (l @ rest)
     = dropWhile is_horizontal_space l @ rest"
proof -
  have "l = takeWhile is_horizontal_space l @ dropWhile is_horizontal_space l" by simp
  then have "l @ rest = takeWhile is_horizontal_space l @ (dropWhile is_horizontal_space l @ rest)"
    by (metis append.assoc)
  then show ?thesis by (metis append_eq_conv_conj)
qed

lemma leading_whitespace_behind:
  assumes "takeWhile is_horizontal_space l \<noteq> []"
  shows "\<not> at_line_start (rev (takeWhile is_horizontal_space l) @ behind)"
proof -
  obtain bs x where r: "takeWhile is_horizontal_space l = bs @ [x]"
    using assms by (cases "takeWhile is_horizontal_space l" rule: rev_cases) auto
  then have "x \<in> set (takeWhile is_horizontal_space l)" by simp
  then have "is_horizontal_space x" by (rule set_takeWhileD[THEN conjunct2])
  then have "x \<noteq> 10" by (rule horizontal_not_newline)
  then show ?thesis unfolding r by (simp add: at_line_start_def)
qed

text \<open>The indentation pattern on one line: the last line, and a line followed by others.\<close>

lemma indentation_line:
  assumes "10 \<notin> set l" "at_line_start behind"
  shows "matched_texts (re_scan indentation_pattern False behind l)
           = (if l = [] then [] else [leading_whitespace l])"
    and "matched_texts (re_scan indentation_pattern False behind (l @ 10 # r))
           = (if l = [] then [] else [leading_whitespace l])
               @ matched_texts (re_scan indentation_pattern False (10 # rev l @ behind) r)"
proof -
  note a = anchored_indentation_pattern
  let ?run = "takeWhile is_horizontal_space l"
  have len: "length ?run \<le> length l" by (rule length_takeWhile_le)
  have d: "10 \<notin> set (dropWhile is_horizontal_space l)"
    using assms(1) by (meson set_dropWhileD)
  have "rev (dropWhile is_horizontal_space l) @ rev ?run = rev l"
    by (metis rev_append takeWhile_dropWhile_id)
  then have rl: "rev (dropWhile is_horizontal_space l) @ rev ?run @ behind = rev l @ behind"
    by (metis append.assoc)
  show "matched_texts (re_scan indentation_pattern False behind l)
           = (if l = [] then [] else [leading_whitespace l])"
  proof (cases "?run = []")
    case True
    show ?thesis
    proof (cases l)
      case Nil
      then show ?thesis by (simp add: re_scan_end try_match_def indentation_pattern_def)
    next
      case (Cons c cs)
      have c: "c \<noteq> 10" using assms(1) Cons by auto
      have "try_match indentation_pattern False behind l = Some (0, ())"
        using True assms(2) Cons c by (simp add: try_match_def indentation_pattern_def)
      then have 1: "re_scan indentation_pattern False behind l
          = Inr ([], ()) # re_scan indentation_pattern True behind l"
        by (rule re_scan_empty_match)
      have "try_match indentation_pattern True behind l = None"
        using True assms(2) Cons c by (simp add: try_match_def indentation_pattern_def)
      then have 2: "re_scan indentation_pattern True behind l = map Inl l"
        using re_scan_unmatched_line(1)[OF a assms(1)] by simp
      show ?thesis using 1 2 True Cons matched_texts_literals[of l "[]"]
        by (simp add: leading_whitespace_def)
    qed
  next
    case False
    then have l: "l \<noteq> []" by auto
    have "try_match indentation_pattern False behind l = Some (length ?run, ())"
      using False assms(2) len by (simp add: try_match_def indentation_pattern_def)
    then have 1: "re_scan indentation_pattern False behind l
        = Inr (take (length ?run) l, ())
            # re_scan indentation_pattern False (rev (take (length ?run) l) @ behind)
                (drop (length ?run) l)"
      using False by (intro re_scan_match) simp_all
    have t: "take (length ?run) l = ?run" "drop (length ?run) l = dropWhile is_horizontal_space l"
      using take_leading_whitespace[of l "[]"] drop_leading_whitespace[of l "[]"] by simp_all
    have 2: "re_scan indentation_pattern False (rev ?run @ behind) (dropWhile is_horizontal_space l)
        = map Inl (dropWhile is_horizontal_space l)"
      using re_scan_rest_of_line(1)[OF a leading_whitespace_behind[OF False] d] by simp
    show ?thesis using 1 2 t l matched_texts_literals[of "dropWhile is_horizontal_space l" "[]"]
      by (simp add: leading_whitespace_def)
  qed
  have tw: "takeWhile is_horizontal_space (l @ 10 # r) = ?run"
    using assms(1) by (rule takeWhile_line)
  show "matched_texts (re_scan indentation_pattern False behind (l @ 10 # r))
           = (if l = [] then [] else [leading_whitespace l])
               @ matched_texts (re_scan indentation_pattern False (10 # rev l @ behind) r)"
  proof (cases "?run = []")
    case True
    show ?thesis
    proof (cases l)
      case Nil
      have "try_match indentation_pattern False behind (10 # r) = None"
        using assms(2) by (simp add: try_match_def indentation_pattern_def is_horizontal_space_def)
      then show ?thesis using Nil by (simp add: re_scan_none)
    next
      case (Cons c cs)
      have c: "c \<noteq> 10" using assms(1) Cons by auto
      have "try_match indentation_pattern False behind (l @ 10 # r) = Some (0, ())"
        using True assms(2) Cons c tw
        by (simp add: try_match_def indentation_pattern_def del: takeWhile.simps)
      then have 1: "re_scan indentation_pattern False behind (l @ 10 # r)
          = Inr ([], ()) # re_scan indentation_pattern True behind (l @ 10 # r)"
        by (rule re_scan_empty_match)
      have "try_match indentation_pattern True behind (l @ 10 # r) = None"
        using True assms(2) Cons c tw
        by (simp add: try_match_def indentation_pattern_def del: takeWhile.simps)
      then have 2: "re_scan indentation_pattern True behind (l @ 10 # r)
          = map Inl l @ Inl 10 # re_scan indentation_pattern False (10 # rev l @ behind) r"
        using re_scan_unmatched_line(2)[OF a assms(1)] by simp
      show ?thesis using 1 2 True Cons
          matched_texts_literals[of l "Inl 10 # re_scan indentation_pattern False (10 # rev l @ behind) r"]
        by (simp add: leading_whitespace_def)
    qed
  next
    case False
    then have l: "l \<noteq> []" by auto
    have "try_match indentation_pattern False behind (l @ 10 # r) = Some (length ?run, ())"
      using False assms(2) len tw
      by (simp add: try_match_def indentation_pattern_def del: takeWhile.simps)
    then have 1: "re_scan indentation_pattern False behind (l @ 10 # r)
        = Inr (take (length ?run) (l @ 10 # r), ())
            # re_scan indentation_pattern False (rev (take (length ?run) (l @ 10 # r)) @ behind)
                (drop (length ?run) (l @ 10 # r))"
      using False by (intro re_scan_match) simp_all
    have 2: "re_scan indentation_pattern False (rev ?run @ behind)
               (dropWhile is_horizontal_space l @ 10 # r)
        = map Inl (dropWhile is_horizontal_space l)
            @ Inl 10 # re_scan indentation_pattern False
                         (10 # rev (dropWhile is_horizontal_space l) @ rev ?run @ behind) r"
      using re_scan_rest_of_line(2)[OF a leading_whitespace_behind[OF False] d] by simp
    have m1: "re_scan indentation_pattern False behind (l @ 10 # r)
        = Inr (?run, ())
            # re_scan indentation_pattern False (rev ?run @ behind)
                (dropWhile is_horizontal_space l @ 10 # r)"
      using 1 by (simp only: take_leading_whitespace drop_leading_whitespace)
    have m2: "re_scan indentation_pattern False (rev ?run @ behind)
               (dropWhile is_horizontal_space l @ 10 # r)
        = map Inl (dropWhile is_horizontal_space l)
            @ Inl 10 # re_scan indentation_pattern False (10 # rev l @ behind) r"
      using 2 unfolding rl .
    show ?thesis
      unfolding m1 m2
      using l matched_texts_literals[of "dropWhile is_horizontal_space l"
          "Inl 10 # re_scan indentation_pattern False (10 # rev l @ behind) r"]
      by (simp add: leading_whitespace_def)
  qed
qed

lemma indentation_lines:
  assumes "lines_ok ls" "at_line_start behind"
  shows "matched_texts (re_scan indentation_pattern False behind (join_lines ls))
           = map leading_whitespace (filter (\<lambda>line. line \<noteq> []) ls)"
  using assms
proof (induction ls arbitrary: behind)
  case Nil
  then show ?case by (simp add: lines_ok_def)
next
  case (Cons l ls)
  have nl: "10 \<notin> set l" using Cons.prems(1) by (simp add: lines_ok_def)
  show ?case
  proof (cases "ls = []")
    case True
    then show ?thesis using indentation_line(1)[OF nl Cons.prems(2)] by simp
  next
    case False
    then have ok: "lines_ok ls" using Cons.prems(1) by (simp add: lines_ok_def)
    show ?thesis
      using indentation_line(2)[OF nl Cons.prems(2), of "join_lines ls"]
        Cons.IH[OF ok at_line_start_newline, of "rev l @ behind"] False
      by (simp add: join_lines_Cons)
  qed
qed

lemma indentation_step:
  "re_findall indentation_pattern (join_lines ls)
     = map leading_whitespace (filter (\<lambda>line. line \<noteq> []) ls)" if "lines_ok ls"
  using indentation_lines[OF that, of "[]"]
  by (simp add: re_findall_def at_line_start_def)

subsection \<open>Stripping the common indentation\<close>

lemma anchored_line_prefix_pattern: "anchored (line_prefix_pattern p)"
  by (simp add: anchored_def line_prefix_pattern_def)

lemma replace_events_literals:
  "replace_events [] (map Inl l @ es) = l @ replace_events [] es"
  by (induction l) simp_all

lemma starts_with_length:
  assumes "starts_with x p"
  shows "length p \<le> length x"
proof -
  have "length (take (length p) x) = length p"
    using assms by (simp add: starts_with_def)
  then show ?thesis by simp
qed

lemma starts_with_line:
  assumes "10 \<notin> set p"
  shows "starts_with (l @ 10 # r) p \<longleftrightarrow> starts_with l p"
proof (cases "length p \<le> length l")
  case True
  then show ?thesis by (simp add: starts_with_def)
next
  case False
  then have "\<not> starts_with l p" using starts_with_length by blast
  moreover have "\<not> starts_with (l @ 10 # r) p"
  proof
    assume "starts_with (l @ 10 # r) p"
    then have "p = l @ take (length p - length l) (10 # r)"
      using False by (simp add: starts_with_def)
    moreover have "take (length p - length l) (10 # r) = 10 # take (length p - length l - 1) r"
      using False by (cases "length p - length l") simp_all
    ultimately have "p = l @ 10 # take (length p - length l - 1) r" by simp
    then have "set p = set (l @ 10 # take (length p - length l - 1) r)" by simp
    then have "10 \<in> set p" by simp
    then show False using assms by simp
  qed
  ultimately show ?thesis by simp
qed

lemma strip_line:
  assumes "p \<noteq> []" "10 \<notin> set p" "10 \<notin> set l" "at_line_start behind"
  shows "replace_events [] (re_scan (line_prefix_pattern p) False behind l) = strip_prefix p l"
    and "replace_events [] (re_scan (line_prefix_pattern p) False behind (l @ 10 # r))
           = strip_prefix p l
               @ 10 # replace_events [] (re_scan (line_prefix_pattern p) False (10 # rev l @ behind) r)"
proof -
  note a = anchored_line_prefix_pattern[of p]
  show "replace_events [] (re_scan (line_prefix_pattern p) False behind l) = strip_prefix p l"
  proof (cases "starts_with l p")
    case False
    then have "try_match (line_prefix_pattern p) False behind l = None"
      by (simp add: try_match_def line_prefix_pattern_def)
    then have "re_scan (line_prefix_pattern p) False behind l = map Inl l"
      using re_scan_unmatched_line(1)[OF a assms(3)] by simp
    then show ?thesis using False replace_events_literals[of l "[]"]
      by (simp add: strip_prefix_def)
  next
    case True
    then have t: "take (length p) l = p" by (simp add: starts_with_def)
    have "try_match (line_prefix_pattern p) False behind l = Some (length p, ())"
      using True assms(1,4) starts_with_length[OF True]
      by (simp add: try_match_def line_prefix_pattern_def)
    then have 1: "re_scan (line_prefix_pattern p) False behind l
        = Inr (p, ()) # re_scan (line_prefix_pattern p) False (rev p @ behind) (drop (length p) l)"
      using re_scan_match[of "line_prefix_pattern p" False behind l "length p" "()"] assms(1) t
      by simp
    have n: "\<not> at_line_start (rev p @ behind)"
      using assms(1,2) by (cases p rule: rev_cases) (auto simp: at_line_start_def)
    have d: "10 \<notin> set (drop (length p) l)" using assms(3) by (meson in_set_dropD)
    have 2: "re_scan (line_prefix_pattern p) False (rev p @ behind) (drop (length p) l)
        = map Inl (drop (length p) l)"
      using re_scan_rest_of_line(1)[OF a n d] by simp
    show ?thesis unfolding 1 2 using True replace_events_literals[of "drop (length p) l" "[]"]
      by (simp add: strip_prefix_def)
  qed
  show "replace_events [] (re_scan (line_prefix_pattern p) False behind (l @ 10 # r))
           = strip_prefix p l
               @ 10 # replace_events [] (re_scan (line_prefix_pattern p) False (10 # rev l @ behind) r)"
  proof (cases "starts_with l p")
    case False
    then have "try_match (line_prefix_pattern p) False behind (l @ 10 # r) = None"
      using starts_with_line[OF assms(2)]
      by (simp add: try_match_def line_prefix_pattern_def)
    then have "re_scan (line_prefix_pattern p) False behind (l @ 10 # r)
        = map Inl l @ Inl 10 # re_scan (line_prefix_pattern p) False (10 # rev l @ behind) r"
      using re_scan_unmatched_line(2)[OF a assms(3)] by simp
    then show ?thesis using False
        replace_events_literals[of l "Inl 10 # re_scan (line_prefix_pattern p) False (10 # rev l @ behind) r"]
      by (simp add: strip_prefix_def)
  next
    case True
    then have t: "take (length p) l = p" by (simp add: starts_with_def)
    have len: "length p \<le> length l" using starts_with_length[OF True] .
    have "try_match (line_prefix_pattern p) False behind (l @ 10 # r) = Some (length p, ())"
      using True assms(1,4) len starts_with_line[OF assms(2), of l r]
      by (simp add: try_match_def line_prefix_pattern_def)
    then have 1: "re_scan (line_prefix_pattern p) False behind (l @ 10 # r)
        = Inr (p, ()) # re_scan (line_prefix_pattern p) False (rev p @ behind)
                          (drop (length p) l @ 10 # r)"
      using re_scan_match[of "line_prefix_pattern p" False behind "l @ 10 # r" "length p" "()"]
        assms(1) t len
      by simp
    have n: "\<not> at_line_start (rev p @ behind)"
      using assms(1,2) by (cases p rule: rev_cases) (auto simp: at_line_start_def)
    have d: "10 \<notin> set (drop (length p) l)" using assms(3) by (meson in_set_dropD)
    have "rev (drop (length p) l) @ rev p = rev l"
      by (metis t append_take_drop_id rev_append)
    then have rl: "rev (drop (length p) l) @ rev p @ behind = rev l @ behind"
      by (metis append.assoc)
    have 2: "re_scan (line_prefix_pattern p) False (rev p @ behind) (drop (length p) l @ 10 # r)
        = map Inl (drop (length p) l)
            @ Inl 10 # re_scan (line_prefix_pattern p) False (10 # rev l @ behind) r"
      using re_scan_rest_of_line(2)[OF a n d, of False r] unfolding rl by simp
    show ?thesis unfolding 1 2 using True
        replace_events_literals[of "drop (length p) l"
          "Inl 10 # re_scan (line_prefix_pattern p) False (10 # rev l @ behind) r"]
      by (simp add: strip_prefix_def)
  qed
qed

lemma strip_lines:
  assumes "p \<noteq> []" "10 \<notin> set p" "lines_ok ls" "at_line_start behind"
  shows "replace_events [] (re_scan (line_prefix_pattern p) False behind (join_lines ls))
           = join_lines (map (strip_prefix p) ls)"
  using assms(3,4)
proof (induction ls arbitrary: behind)
  case Nil
  then show ?case by (simp add: lines_ok_def)
next
  case (Cons l ls)
  have nl: "10 \<notin> set l" using Cons.prems(1) by (simp add: lines_ok_def)
  show ?case
  proof (cases "ls = []")
    case True
    then show ?thesis using strip_line(1)[OF assms(1,2) nl Cons.prems(2)] by simp
  next
    case False
    then have ok: "lines_ok ls" using Cons.prems(1) by (simp add: lines_ok_def)
    show ?thesis
      using strip_line(2)[OF assms(1,2) nl Cons.prems(2), of "join_lines ls"]
        Cons.IH[OF ok at_line_start_newline, of "rev l @ behind"] False
      by (simp add: join_lines_Cons)
  qed
qed

lemma strip_nothing:
  "replace_events [] (re_scan (line_prefix_pattern []) adv behind s) = s"
proof (induction s arbitrary: adv behind)
  case Nil
  show ?case
  proof (cases "at_line_start behind \<and> \<not> adv")
    case True
    then have "try_match (line_prefix_pattern []) adv behind [] = Some (0, ())"
      by (simp add: try_match_def line_prefix_pattern_def starts_with_def)
    then have "re_scan (line_prefix_pattern []) adv behind []
        = Inr ([], ()) # re_scan (line_prefix_pattern []) True behind []"
      by (rule re_scan_empty_match)
    moreover have "re_scan (line_prefix_pattern []) True behind [] = []"
      by (simp add: re_scan_end try_match_def line_prefix_pattern_def)
    ultimately show ?thesis by simp
  next
    case False
    then have "try_match (line_prefix_pattern []) adv behind [] = None"
      by (auto simp: try_match_def line_prefix_pattern_def)
    then show ?thesis by (simp add: re_scan_end)
  qed
next
  case (Cons c cs)
  have n: "try_match (line_prefix_pattern []) True behind (c # cs) = None"
    by (simp add: try_match_def line_prefix_pattern_def)
  show ?case
  proof (cases "at_line_start behind \<and> \<not> adv")
    case True
    then have "try_match (line_prefix_pattern []) adv behind (c # cs) = Some (0, ())"
      by (simp add: try_match_def line_prefix_pattern_def starts_with_def)
    then have "re_scan (line_prefix_pattern []) adv behind (c # cs)
        = Inr ([], ()) # re_scan (line_prefix_pattern []) True behind (c # cs)"
      by (rule re_scan_empty_match)
    then show ?thesis using re_scan_none[OF n] Cons by simp
  next
    case False
    then have "try_match (line_prefix_pattern []) adv behind (c # cs) = None"
      by (auto simp: try_match_def line_prefix_pattern_def)
    then show ?thesis using Cons by (simp add: re_scan_none)
  qed
qed

lemma strip_prefix_Nil: "strip_prefix [] l = l"
  by (simp add: strip_prefix_def starts_with_def)

lemma strip_step:
  assumes "10 \<notin> set p" "lines_ok ls"
  shows "re_sub_string (line_prefix_pattern p) [] (join_lines ls)
           = join_lines (map (strip_prefix p) ls)"
proof (cases "p = []")
  case True
  have "map (strip_prefix []) ls = ls" by (induction ls) (simp_all add: strip_prefix_Nil)
  then show ?thesis using True by (simp add: re_sub_string_def strip_nothing)
next
  case False
  then show ?thesis
    using strip_lines[OF False assms, of "[]"] by (simp add: re_sub_string_def at_line_start_def)
qed

subsection \<open>The longest common prefix\<close>

lemma starts_with_Nil [simp]: "starts_with x []"
  by (simp add: starts_with_def)

lemma starts_with_Cons_Cons [simp]:
  "starts_with (x # xs) (y # ys) \<longleftrightarrow> x = y \<and> starts_with xs ys"
  by (auto simp: starts_with_def)

lemma starts_with_Nil_Cons [simp]: "\<not> starts_with [] (y # ys)"
  by (simp add: starts_with_def)

lemma common_prefix_left: "starts_with a (common_prefix a b)"
  by (induction a b rule: common_prefix.induct) simp_all

lemma common_prefix_right: "starts_with b (common_prefix a b)"
  by (induction a b rule: common_prefix.induct) simp_all

lemma common_prefix_greatest:
  "starts_with a p \<Longrightarrow> starts_with b p \<Longrightarrow> starts_with (common_prefix a b) p"
proof (induction a b arbitrary: p rule: common_prefix.induct)
  case (1 ys)
  then show ?case by (cases p) auto
next
  case (2 x xs)
  then show ?case by (cases p) auto
next
  case (3 x xs y ys)
  then show ?case by (cases p) auto
qed

lemma starts_with_trans: "starts_with a b \<Longrightarrow> starts_with b c \<Longrightarrow> starts_with a c"
proof (induction c arbitrary: a b)
  case Nil
  then show ?case by simp
next
  case (Cons z c)
  then obtain b' where b: "b = z # b'" by (cases b) auto
  then obtain a' where a: "a = z # a'" using Cons.prems(1) by (cases a) auto
  show ?case using Cons a b by auto
qed

lemma starts_with_same_length:
  "starts_with a p \<Longrightarrow> length a \<le> length p \<Longrightarrow> a = p"
  by (simp add: starts_with_def)

lemma longest_common_prefix_common:
  "x \<in> set xs \<Longrightarrow> starts_with x (longest_common_prefix_of xs)"
proof (induction xs rule: longest_common_prefix_of.induct)
  case 1
  then show ?case by simp
next
  case (2 s)
  then show ?case by (simp add: starts_with_def)
next
  case (3 s t rest)
  show ?case
  proof (cases "x = s")
    case True
    then show ?thesis by (simp add: common_prefix_left)
  next
    case False
    then have "starts_with x (longest_common_prefix_of (t # rest))" using 3 by auto
    then show ?thesis
      using starts_with_trans[OF _ common_prefix_right] by simp
  qed
qed

lemma longest_common_prefix_greatest:
  "xs \<noteq> [] \<Longrightarrow> \<forall>x \<in> set xs. starts_with x p \<Longrightarrow> starts_with (longest_common_prefix_of xs) p"
proof (induction xs rule: longest_common_prefix_of.induct)
  case 1
  then show ?case by simp
next
  case (2 s)
  then show ?case by simp
next
  case (3 s t rest)
  then show ?case by (simp add: common_prefix_greatest)
qed

lemma shortest_string_in: "xs \<noteq> [] \<Longrightarrow> shortest_string xs \<in> set xs"
  by (induction xs rule: shortest_string.induct) (auto simp: Let_def)

lemma shrink_prefix_longest:
  assumes "xs \<noteq> []" "s \<in> set xs"
    and "length (longest_common_prefix_of xs) \<le> n" "n \<le> length s"
  shows "shrink_prefix xs s n = longest_common_prefix_of xs"
  using assms(3,4)
proof (induction n)
  case 0
  then show ?case by simp
next
  case (Suc n)
  let ?L = "longest_common_prefix_of xs"
  have sl: "starts_with s ?L" using assms(2) by (rule longest_common_prefix_common)
  show ?case
  proof (cases "list_all (\<lambda>string. starts_with string (take (Suc n) s)) xs")
    case True
    then have "starts_with ?L (take (Suc n) s)"
      using longest_common_prefix_greatest[OF assms(1)] by (simp add: list_all_iff)
    moreover have "length ?L \<le> length (take (Suc n) s)" using Suc.prems by simp
    ultimately have "?L = take (Suc n) s" by (rule starts_with_same_length)
    then show ?thesis using True by simp
  next
    case False
    have "length ?L \<noteq> Suc n"
    proof
      assume e: "length ?L = Suc n"
      then have "take (Suc n) s = ?L" using sl by (simp add: starts_with_def)
      then have "list_all (\<lambda>string. starts_with string (take (Suc n) s)) xs"
        using longest_common_prefix_common by (simp add: list_all_iff)
      then show False using False by simp
    qed
    then have "length ?L \<le> n" using Suc.prems by simp
    then show ?thesis using False Suc by simp
  qed
qed

lemma compute_longest_common_prefix_correct:
  "compute_longest_common_prefix xs = longest_common_prefix_of xs"
proof (cases "xs = []")
  case True
  then show ?thesis by (simp add: compute_longest_common_prefix_def)
next
  case False
  have s: "shortest_string xs \<in> set xs" using False by (rule shortest_string_in)
  have "length (longest_common_prefix_of xs) \<le> length (shortest_string xs)"
    using longest_common_prefix_common[OF s] by (rule starts_with_length)
  then show ?thesis
    using shrink_prefix_longest[OF False s] by (simp add: compute_longest_common_prefix_def)
qed

lemma longest_common_prefix_no_newline:
  assumes "\<forall>x \<in> set xs. 10 \<notin> set x"
  shows "10 \<notin> set (longest_common_prefix_of xs)"
proof (cases xs)
  case Nil
  then show ?thesis by simp
next
  case (Cons x rest)
  then have "starts_with x (longest_common_prefix_of xs)"
    using longest_common_prefix_common[of x xs] by simp
  then have "set (longest_common_prefix_of xs) \<subseteq> set x"
    by (metis starts_with_def set_take_subset)
  then show ?thesis using assms Cons by auto
qed

lemma leading_whitespace_no_newline: "10 \<notin> set (leading_whitespace l)"
  using horizontal_not_newline by (auto simp: leading_whitespace_def dest: set_takeWhileD)

subsection \<open>The refinement\<close>

text \<open>
  C6 (de-indentation). For every text, \<open>de_indent\<close>, which the source computes with three
  regular expressions, returns what the specification describes on the lines of the text:
  a last line that is not empty and holds whitespace only is erased; the longest common
  prefix of the leading whitespace of the remaining non-empty lines is computed
  (whitespace-only lines count, empty lines do not); that prefix is stripped from every
  line that starts with it. Whitespace is the ASCII whitespace other than the newline,
  and lines are separated by newlines.
\<close>

theorem de_indent_refines_specification: "de_indent string = de_indent_spec string"
proof -
  let ?lines = "erase_trailing_whitespace_line (split_lines string)"
  let ?indentations = "map leading_whitespace (filter (\<lambda>line. line \<noteq> []) ?lines)"
  have ok: "lines_ok ?lines" by (intro lines_ok_erase lines_ok_split)
  have 1: "re_sub_string trailing_whitespace_pattern [] string = join_lines ?lines"
    by (rule erase_trailing_step)
  have 2: "re_findall indentation_pattern (join_lines ?lines) = ?indentations"
    using ok by (rule indentation_step)
  have 3: "compute_longest_common_prefix ?indentations = longest_common_prefix_of ?indentations"
    by (rule compute_longest_common_prefix_correct)
  have "10 \<notin> set (longest_common_prefix_of ?indentations)"
    by (intro longest_common_prefix_no_newline) (auto simp: leading_whitespace_no_newline)
  then have 4: "re_sub_string (line_prefix_pattern (longest_common_prefix_of ?indentations)) []
                  (join_lines ?lines)
      = join_lines (map (strip_prefix (longest_common_prefix_of ?indentations)) ?lines)"
    using ok by (rule strip_step)
  show ?thesis
    unfolding de_indent_def de_indent_spec_def Let_def 1 2 3 4 ..
qed


text \<open>Evaluation of the specification on concrete texts.\<close>

lemmas de_indent_spec_eval =
  de_indent_spec_def erase_trailing_whitespace_line_def is_whitespace_only_def
  leading_whitespace_def strip_prefix_def is_horizontal_space_def is_space_def u_def

text \<open>
  The second case of the repository's test of \<open>de_indent\<close>: two lines indented with
  tabs and a space, and a last line of eight spaces.
\<close>

theorem de_indent_refines_specification_witness:
  "de_indent ([10] @ [9, 9, 32, 9, 9, 9, 9, 9, 9] @ u '' And,''
              @ [10] @ [9, 9, 32, 9, 9, 9, 9, 9, 9] @ u ''Whitespace before closing delimiter:''
              @ [10] @ u ''        '')
     = [10] @ u '' And,'' @ [10] @ u ''Whitespace before closing delimiter:'' @ [10]"
  unfolding de_indent_refines_specification
  by (simp add: de_indent_spec_eval)

end
